theory Spec2Isabelle
  imports
    Complex_Main
    "HOL-Library.Finite_Map"
    "HOL-Library.Sublist"
    "HOL-Library.List_Lexorder"
    "HOL-Library.Char_ord"
    "HOL-Library.Word"
begin

section \<open>The document store at its boundary\<close>

text \<open>
  The undo adapter of usd-qt (undoRouter, undoBlock, undoInverse, undoStateDelegate) edits
  an \<^verbatim>\<open>SdfLayer\<close> of the USD library.  The layer and its \<^verbatim>\<open>SdfData\<close> are not part of the
  repository; they are modelled here as far as the adapter calls them: a layer's data is a
  finite map from paths to specs, a spec has a type and a finite map of fields.  A stored
  spec has a known type and a stored field holds a value that is not empty, as in
  \<^verbatim>\<open>SdfData\<close>.  The change notices of the store (\<^verbatim>\<open>SdfChangeBlock\<close>) and the diagnostics that
  the store itself posts are left out; the debug messages of the adapter (\<^verbatim>\<open>TF_DEBUG\<close>) are
  left out as well.
\<close>

type_synonym token = string

text \<open>An \<^verbatim>\<open>SdfPath\<close> is the list of its name elements from the root.\<close>
type_synonym path = "string list"

text \<open>A time code (\<^verbatim>\<open>double\<close> in the source) is used as a key only.\<close>
type_synonym time = rat

text \<open>What a non-empty \<^verbatim>\<open>VtValue\<close> holds.\<close>
datatype vt =
    VtInt int
  | VtString string
  | VtTokenVector "token list"
  | VtPathVector "path list"
  | VtDictionary "(token, vt) fmap"
  | VtTimeSamples "(time, vt) fmap"

text \<open>A \<^verbatim>\<open>VtValue\<close>; \<open>None\<close> is the empty value \<^verbatim>\<open>VtValue()\<close>.\<close>
type_synonym VtValue = "vt option"

text \<open>The spec types that a stored spec can have.\<close>
datatype spec_kind =
    SdfSpecTypeAttribute
  | SdfSpecTypeConnection
  | SdfSpecTypeExpression
  | SdfSpecTypeMapper
  | SdfSpecTypeMapperArg
  | SdfSpecTypePrim
  | SdfSpecTypePseudoRoot
  | SdfSpecTypeRelationship
  | SdfSpecTypeRelationshipTarget
  | SdfSpecTypeVariant
  | SdfSpecTypeVariantSet

text \<open>An \<^verbatim>\<open>SdfSpecType\<close>; \<open>None\<close> is \<^verbatim>\<open>SdfSpecTypeUnknown\<close>, the type of a path with no spec.\<close>
type_synonym SdfSpecType = "spec_kind option"

record spec_data =
  specType :: spec_kind
  specFields :: "(token, vt) fmap"

type_synonym SdfData = "(path, spec_data) fmap"

text \<open>Modelled from the spec: \<^verbatim>\<open>SdfFieldKeys->TimeSamples\<close>, the name of the field that
  holds a spec's time samples (the constant is declared by the store).\<close>
definition TimeSamples :: token where
  "TimeSamples = ''timeSamples''"

subsection \<open>Queries (get-field, has-field, list-fields-of-spec, get-spec-type)\<close>

text \<open>Modelled from the spec: \<^verbatim>\<open>SdfAbstractData::GetSpecType\<close>.\<close>
definition GetSpecType :: "SdfData \<Rightarrow> path \<Rightarrow> SdfSpecType" where
  "GetSpecType d p = map_option specType (fmlookup d p)"

text \<open>Modelled from the spec: \<^verbatim>\<open>SdfAbstractData::List\<close>, the names of the fields of a spec.\<close>
definition List_fields :: "SdfData \<Rightarrow> path \<Rightarrow> token list" where
  "List_fields d p =
     (case fmlookup d p of
        None \<Rightarrow> []
      | Some sp \<Rightarrow> sorted_list_of_fset (fmdom (specFields sp)))"

text \<open>Modelled from the spec: \<^verbatim>\<open>SdfAbstractData::Get\<close> and \<^verbatim>\<open>SdfLayer::GetField\<close>; an absent
  field reads as the empty value.\<close>
definition GetField :: "SdfData \<Rightarrow> path \<Rightarrow> token \<Rightarrow> VtValue" where
  "GetField d p f =
     (case fmlookup d p of
        None \<Rightarrow> None
      | Some sp \<Rightarrow> fmlookup (specFields sp) f)"

text \<open>Modelled from the spec: \<^verbatim>\<open>SdfLayer::HasField\<close>.\<close>
definition HasField :: "SdfData \<Rightarrow> path \<Rightarrow> token \<Rightarrow> bool" where
  "HasField d p f = (GetField d p f \<noteq> None)"

text \<open>Modelled from the spec: \<^verbatim>\<open>SdfLayer::GetFieldDictValueByKey\<close> (get-dict-entry).\<close>
definition GetFieldDictValueByKey :: "SdfData \<Rightarrow> path \<Rightarrow> token \<Rightarrow> token \<Rightarrow> VtValue" where
  "GetFieldDictValueByKey d p f k =
     (case GetField d p f of
        Some (VtDictionary m) \<Rightarrow> fmlookup m k
      | _ \<Rightarrow> None)"

text \<open>Modelled from the spec: \<^verbatim>\<open>SdfLayer::QueryTimeSample\<close> (query-time-sample-at-time); the
  out-parameter stays empty when there is no sample at that time.\<close>
definition QueryTimeSample :: "SdfData \<Rightarrow> path \<Rightarrow> time \<Rightarrow> VtValue" where
  "QueryTimeSample d p t =
     (case GetField d p TimeSamples of
        Some (VtTimeSamples m) \<Rightarrow> fmlookup m t
      | _ \<Rightarrow> None)"

text \<open>Modelled from the spec: the specs that \<^verbatim>\<open>SdfLayer::Traverse\<close> visits from a path
  (traverse-subtree): the specs at and below that path, for a layer whose children fields
  name the specs below each spec.  The order of the visits is the order of the paths.\<close>
definition subtree :: "SdfData \<Rightarrow> path \<Rightarrow> path list" where
  "subtree d p = filter (prefix p) (sorted_list_of_fset (fmdom d))"

subsection \<open>Storage primitives\<close>

text \<open>Modelled from the spec: \<^verbatim>\<open>SdfAbstractData::Erase\<close>.\<close>
definition Erase :: "path \<Rightarrow> token \<Rightarrow> SdfData \<Rightarrow> SdfData" where
  "Erase p f d =
     (case fmlookup d p of
        None \<Rightarrow> d
      | Some sp \<Rightarrow> fmupd p (sp\<lparr>specFields := fmdrop f (specFields sp)\<rparr>) d)"

text \<open>Modelled from the spec: \<^verbatim>\<open>SdfAbstractData::Set\<close>; the empty value erases the field, and
  a field of a path with no spec is not written.\<close>
definition Set_field :: "path \<Rightarrow> token \<Rightarrow> VtValue \<Rightarrow> SdfData \<Rightarrow> SdfData" where
  "Set_field p f v d =
     (case v of
        None \<Rightarrow> Erase p f d
      | Some x \<Rightarrow>
          (case fmlookup d p of
             None \<Rightarrow> d
           | Some sp \<Rightarrow> fmupd p (sp\<lparr>specFields := fmupd f x (specFields sp)\<rparr>) d))"

text \<open>Modelled from the spec: \<^verbatim>\<open>SdfAbstractData::CreateSpec\<close>; the unknown type creates
  nothing, an existing spec keeps its fields.\<close>
definition CreateSpec_data :: "path \<Rightarrow> SdfSpecType \<Rightarrow> SdfData \<Rightarrow> SdfData" where
  "CreateSpec_data p ty d =
     (case ty of
        None \<Rightarrow> d
      | Some k \<Rightarrow>
          (case fmlookup d p of
             None \<Rightarrow> fmupd p \<lparr>specType = k, specFields = fmempty\<rparr> d
           | Some sp \<Rightarrow> fmupd p (sp\<lparr>specType := k\<rparr>) d))"

text \<open>Modelled from the spec: \<^verbatim>\<open>SdfAbstractData::EraseSpec\<close>.\<close>
definition EraseSpec :: "path \<Rightarrow> SdfData \<Rightarrow> SdfData" where
  "EraseSpec p d = fmdrop p d"

text \<open>Modelled from the spec: \<^verbatim>\<open>SdfAbstractData::MoveSpec\<close>; nothing moves from a path with
  no spec or onto a path that has one.\<close>
definition MoveSpec_data :: "path \<Rightarrow> path \<Rightarrow> SdfData \<Rightarrow> SdfData" where
  "MoveSpec_data old new d =
     (case fmlookup d old of
        None \<Rightarrow> d
      | Some sp \<Rightarrow>
          (case fmlookup d new of
             None \<Rightarrow> fmdrop old (fmupd new sp d)
           | Some _ \<Rightarrow> d))"

text \<open>Modelled from the spec: the primitive mutations of the layer (set-field, set-dict-entry,
  set-time-sample, create-spec, delete-spec, move-spec, push-child, pop-child), as the
  state delegate's base class calls them after the hook.\<close>
definition PrimSetField :: "path \<Rightarrow> token \<Rightarrow> VtValue \<Rightarrow> SdfData \<Rightarrow> SdfData" where
  "PrimSetField p f v d = Set_field p f v d"

definition PrimSetFieldDictValueByKey ::
  "path \<Rightarrow> token \<Rightarrow> token \<Rightarrow> VtValue \<Rightarrow> SdfData \<Rightarrow> SdfData" where
  "PrimSetFieldDictValueByKey p f k v d =
     (case v of
        None \<Rightarrow>
          (case GetField d p f of
             Some (VtDictionary m) \<Rightarrow>
               (if fmdrop k m = fmempty then Erase p f d
                else Set_field p f (Some (VtDictionary (fmdrop k m))) d)
           | _ \<Rightarrow> d)
      | Some x \<Rightarrow>
          (let m = (case GetField d p f of Some (VtDictionary m) \<Rightarrow> m | _ \<Rightarrow> fmempty)
           in Set_field p f (Some (VtDictionary (fmupd k x m))) d))"

definition PrimSetTimeSample :: "path \<Rightarrow> time \<Rightarrow> VtValue \<Rightarrow> SdfData \<Rightarrow> SdfData" where
  "PrimSetTimeSample p t v d =
     (case v of
        None \<Rightarrow>
          (case GetField d p TimeSamples of
             Some (VtTimeSamples m) \<Rightarrow>
               (if fmdrop t m = fmempty then Erase p TimeSamples d
                else Set_field p TimeSamples (Some (VtTimeSamples (fmdrop t m))) d)
           | _ \<Rightarrow> d)
      | Some x \<Rightarrow>
          (let m = (case GetField d p TimeSamples of Some (VtTimeSamples m) \<Rightarrow> m | _ \<Rightarrow> fmempty)
           in Set_field p TimeSamples (Some (VtTimeSamples (fmupd t x m))) d))"

definition PrimCreateSpec :: "path \<Rightarrow> SdfSpecType \<Rightarrow> bool \<Rightarrow> SdfData \<Rightarrow> SdfData" where
  "PrimCreateSpec p ty inert d = CreateSpec_data p ty d"

definition PrimDeleteSpec :: "path \<Rightarrow> bool \<Rightarrow> SdfData \<Rightarrow> SdfData" where
  "PrimDeleteSpec p inert d = fold EraseSpec (subtree d p) d"

definition PrimMoveSpec :: "path \<Rightarrow> path \<Rightarrow> SdfData \<Rightarrow> SdfData" where
  "PrimMoveSpec old new d =
     fold (\<lambda>q acc. MoveSpec_data q (new @ drop (length old) q) acc) (subtree d old) d"

definition PrimPushTokenChild :: "path \<Rightarrow> token \<Rightarrow> token \<Rightarrow> SdfData \<Rightarrow> SdfData" where
  "PrimPushTokenChild p f v d =
     (let vec = (case GetField d p f of Some (VtTokenVector xs) \<Rightarrow> xs | _ \<Rightarrow> [])
      in Set_field p f (Some (VtTokenVector (vec @ [v]))) d)"

definition PrimPopTokenChild :: "path \<Rightarrow> token \<Rightarrow> SdfData \<Rightarrow> SdfData" where
  "PrimPopTokenChild p f d =
     (case GetField d p f of
        Some (VtTokenVector xs) \<Rightarrow>
          (if xs = [] then d else Set_field p f (Some (VtTokenVector (butlast xs))) d)
      | _ \<Rightarrow> d)"

definition PrimPushPathChild :: "path \<Rightarrow> token \<Rightarrow> path \<Rightarrow> SdfData \<Rightarrow> SdfData" where
  "PrimPushPathChild p f v d =
     (let vec = (case GetField d p f of Some (VtPathVector xs) \<Rightarrow> xs | _ \<Rightarrow> [])
      in Set_field p f (Some (VtPathVector (vec @ [v]))) d)"

definition PrimPopPathChild :: "path \<Rightarrow> token \<Rightarrow> SdfData \<Rightarrow> SdfData" where
  "PrimPopPathChild p f d =
     (case GetField d p f of
        Some (VtPathVector xs) \<Rightarrow>
          (if xs = [] then d else Set_field p f (Some (VtPathVector (butlast xs))) d)
      | _ \<Rightarrow> d)"


section \<open>The world of the undo adapter\<close>

type_synonym layer_id = nat

text \<open>
  An inverse is the closure that a hook binds (\<^verbatim>\<open>std::bind(&UsdQt_UndoStateDelegate::_InvertX,
  this, ...)\<close>): the member function, the delegate it is bound to (the identifier of the
  tracked layer) and the bound arguments.
\<close>
datatype inverse =
    BindInvertSetField layer_id path token VtValue
  | BindInvertSetFieldDictValueByKey layer_id path token token VtValue
  | BindInvertSetTimeSample layer_id path time VtValue
  | BindInvertCreateSpec layer_id path bool
  | BindInvertDeleteSpec layer_id path bool SdfSpecType SdfData
  | BindInvertMoveSpec layer_id path path
  | BindInvertPushTokenChild layer_id path token token
  | BindInvertPopTokenChild layer_id path token token
  | BindInvertPushPathChild layer_id path token path
  | BindInvertPopPathChild layer_id path token path

text \<open>What \<^verbatim>\<open>TF_CODING_ERROR\<close>, \<^verbatim>\<open>TF_WARN\<close> and a failed \<^verbatim>\<open>TF_VERIFY\<close> post to the diagnostic
  channel.\<close>
datatype diagnostic =
    CodingError string
  | Warn string
  | VerifyFailed string

text \<open>The host's reaction to \<^verbatim>\<open>UsdQt::UndoStackNotice\<close>: nobody listens, or the listener adopts
  the edits into a fresh \<^verbatim>\<open>UsdQtUndoInverse\<close> that it puts on its undo stack, as the class
  comment of the notice asks.\<close>
datatype listener = NoListener | AdoptingListener

text \<open>A \<^verbatim>\<open>UsdQt_UndoStateDelegate\<close>: \<open>layer = None\<close> is an expired layer handle.\<close>
record delegate =
  layer :: "SdfData option"
  dirty :: bool

text \<open>The singleton \<^verbatim>\<open>UsdQtUndoRouter\<close> (\<open>depth\<close>, \<open>inversion\<close>, \<open>muteDepth\<close>), the delegates
  of the tracked layers, and what the host observes.  Both counters are C++ \<^verbatim>\<open>int\<close>s.  The
  mute depth \<^verbatim>\<open>int _muteDepth\<close> is the 32-bit machine integer: \<^verbatim>\<open>++\<close> and \<^verbatim>\<open>--\<close> wrap around
  and \<open>sint\<close> reads its signed value.  The block depth \<^verbatim>\<open>int _depth\<close> is taken unbounded: it
  counts the blocks that are open, which start from 0.\<close>
record world =
  depth :: int
  inversion :: "inverse list"
  muteDepth :: "32 word"
  delegates :: "layer_id \<Rightarrow> delegate"
  notices :: nat
  diagnostics :: "diagnostic list"
  listener :: listener
  undoStack :: "inverse list list"

definition report :: "diagnostic \<Rightarrow> world \<Rightarrow> world" where
  "report e w = w\<lparr>diagnostics := diagnostics w @ [e]\<rparr>"

definition layers :: "world \<Rightarrow> layer_id \<Rightarrow> SdfData option" where
  "layers w l = layer (delegates w l)"

definition update_layer_data :: "layer_id \<Rightarrow> (SdfData \<Rightarrow> SdfData) \<Rightarrow> world \<Rightarrow> world" where
  "update_layer_data l g w =
     w\<lparr>delegates := (delegates w)
          (l := (delegates w l)\<lparr>layer := map_option g (layer (delegates w l))\<rparr>)\<rparr>"

section \<open>UsdQtUndoInverse: the list operations\<close>

text \<open>\<^verbatim>\<open>_Adopt\<close>: push back every element of the other list, by index.\<close>
definition UndoInverse__Adopt :: "inverse list \<Rightarrow> inverse list \<Rightarrow> inverse list" where
  "UndoInverse__Adopt this other =
     fold (\<lambda>i acc. acc @ [other ! i]) [0..<length other] this"

definition UndoInverse__Append :: "inverse \<Rightarrow> inverse list \<Rightarrow> inverse list" where
  "UndoInverse__Append iv this = this @ [iv]"

definition UndoInverse__Clear :: "inverse list \<Rightarrow> inverse list" where
  "UndoInverse__Clear this = []"

definition UndoInverse__GetSize :: "inverse list \<Rightarrow> nat" where
  "UndoInverse__GetSize this = length this"

section \<open>UsdQtUndoRouter and UsdQtUndoBlock\<close>

text \<open>\<^verbatim>\<open>UsdQtUndoRouter::TransferEdits\<close>: the transaction adopts the router's list, the router's
  list is cleared, the result is \<^verbatim>\<open>true\<close>.\<close>
definition TransferEdits :: "inverse list \<Rightarrow> world \<Rightarrow> bool \<times> inverse list \<times> world" where
  "TransferEdits iv w =
     (True, UndoInverse__Adopt iv (inversion w),
      w\<lparr>inversion := UndoInverse__Clear (inversion w)\<rparr>)"

text \<open>\<^verbatim>\<open>UsdQt::UndoStackNotice().Send()\<close>: one more notice; an adopting listener transfers the
  edits into a new transaction on its stack.\<close>
definition UndoStackNotice_Send :: "world \<Rightarrow> world" where
  "UndoStackNotice_Send w =
     (let w1 = w\<lparr>notices := notices w + 1\<rparr>
      in case listener w1 of
           NoListener \<Rightarrow> w1
         | AdoptingListener \<Rightarrow>
             (case TransferEdits [] w1 of
                (ok, t, w2) \<Rightarrow> w2\<lparr>undoStack := t # undoStack w2\<rparr>))"

definition fragmented_msg :: string where
  "fragmented_msg = ''Opening fragmented undo block. This may be because of an undo command running inside of an edit block.''"

definition not_adopted_msg :: string where
  "not_adopted_msg = ''All edits have not been adopted. Undo stack may be incomplete.''"

definition depth_verify_msg :: string where
  "depth_verify_msg = ''router._depth >= 0''"

text \<open>\<^verbatim>\<open>UsdQtUndoBlock::_Initialize\<close>, run by the constructor.\<close>
definition UndoBlock__Initialize :: "world \<Rightarrow> world" where
  "UndoBlock__Initialize w =
     (let w1 = (if depth w \<ge> 0 then w else report (VerifyFailed depth_verify_msg) w);
          w2 = (if depth w1 = 0
                then (if UndoInverse__GetSize (inversion w1) \<noteq> 0
                      then report (CodingError fragmented_msg) w1
                      else w1)
                else w1)
      in w2\<lparr>depth := depth w2 + 1\<rparr>)"

text \<open>\<^verbatim>\<open>UsdQtUndoBlock::~UsdQtUndoBlock\<close>.\<close>
definition UndoBlock_destroy :: "world \<Rightarrow> world" where
  "UndoBlock_destroy w =
     (let w1 = w\<lparr>depth := depth w - 1\<rparr>;
          w2 = (if depth w1 \<ge> 0 then w1 else report (VerifyFailed depth_verify_msg) w1)
      in if depth w2 = 0
         then (if UndoInverse__GetSize (inversion w2) < 1
               then w2
               else (let w3 = UndoStackNotice_Send w2
                     in if UndoInverse__GetSize (inversion w3) > 0
                        then (report (CodingError not_adopted_msg) w3)
                               \<lparr>inversion := UndoInverse__Clear (inversion w3)\<rparr>
                        else w3))
         else w2)"

text \<open>\<^verbatim>\<open>UsdQtUndoRouter::_AddInverse\<close>: a block is open while the inverse is appended.\<close>
definition UndoRouter__AddInverse :: "inverse \<Rightarrow> world \<Rightarrow> world" where
  "UndoRouter__AddInverse iv w =
     (let w1 = UndoBlock__Initialize w;
          w2 = w1\<lparr>inversion := UndoInverse__Append iv (inversion w1)\<rparr>
      in UndoBlock_destroy w2)"

text \<open>\<^verbatim>\<open>UsdQtUndoRouter::_Mute\<close>: \<^verbatim>\<open>_muteDepth++\<close> on the 32-bit counter.\<close>
definition UndoRouter__Mute :: "world \<Rightarrow> world" where
  "UndoRouter__Mute w = w\<lparr>muteDepth := muteDepth w + 1\<rparr>"

text \<open>\<^verbatim>\<open>UsdQtUndoRouter::_Unmute\<close>: \<^verbatim>\<open>_muteDepth--\<close> on the 32-bit counter, then the coding
  error when the counter reads below zero.\<close>
definition UndoRouter__Unmute :: "world \<Rightarrow> world" where
  "UndoRouter__Unmute w =
     (let w1 = w\<lparr>muteDepth := muteDepth w - 1\<rparr>
      in if sint (muteDepth w1) < 0 then report (CodingError ''Mute depth error.'') w1 else w1)"

text \<open>\<^verbatim>\<open>UsdQtUndoRouter::IsMuted\<close>: \<^verbatim>\<open>_muteDepth > 0\<close>, read as a signed number.\<close>
definition IsMuted :: "world \<Rightarrow> bool" where
  "IsMuted w = (sint (muteDepth w) > 0)"

section \<open>UsdQt_UndoStateDelegate: capturing inverses\<close>

definition UndoStateDelegate__RouteInverse :: "inverse \<Rightarrow> world \<Rightarrow> world" where
  "UndoStateDelegate__RouteInverse iv w =
     (if \<not> IsMuted w then UndoRouter__AddInverse iv w
      else report (Warn ''Performance Warning.  Inverse should be muted earlier in stack.'') w)"

definition UndoStateDelegate__MarkCurrentStateAsDirty :: "layer_id \<Rightarrow> world \<Rightarrow> world" where
  "UndoStateDelegate__MarkCurrentStateAsDirty l w =
     w\<lparr>delegates := (delegates w)(l := (delegates w l)\<lparr>dirty := True\<rparr>)\<rparr>"

definition UndoStateDelegate__IsDirty :: "layer_id \<Rightarrow> world \<Rightarrow> bool" where
  "UndoStateDelegate__IsDirty l w = dirty (delegates w l)"

definition UndoStateDelegate__MarkCurrentStateAsClean :: "layer_id \<Rightarrow> world \<Rightarrow> world" where
  "UndoStateDelegate__MarkCurrentStateAsClean l w =
     w\<lparr>delegates := (delegates w)(l := (delegates w l)\<lparr>dirty := False\<rparr>)\<rparr>"

text \<open>\<^verbatim>\<open>UsdQt_UndoStateDelegate::New\<close>: not dirty, no layer yet.\<close>
definition UndoStateDelegate_New :: delegate where
  "UndoStateDelegate_New = \<lparr>layer = None, dirty = False\<rparr>"

text \<open>\<^verbatim>\<open>_OnSetLayer\<close>: the handle of the layer, or \<^verbatim>\<open>NULL\<close>.\<close>
definition UndoStateDelegate__OnSetLayer :: "layer_id \<Rightarrow> SdfData option \<Rightarrow> world \<Rightarrow> world" where
  "UndoStateDelegate__OnSetLayer l h w =
     (if h \<noteq> None
      then w\<lparr>delegates := (delegates w)(l := (delegates w l)\<lparr>layer := h\<rparr>)\<rparr>
      else w\<lparr>delegates := (delegates w)(l := (delegates w l)\<lparr>layer := None\<rparr>)\<rparr>)"

text \<open>\<^verbatim>\<open>UsdQtUndoRouter::TrackLayer\<close>: \<^verbatim>\<open>layer->SetStateDelegate(New())\<close>; the layer hands
  itself to its new delegate.  The result is \<^verbatim>\<open>true\<close>.\<close>
definition TrackLayer :: "layer_id \<Rightarrow> SdfData \<Rightarrow> world \<Rightarrow> bool \<times> world" where
  "TrackLayer l d w =
     (True,
      UndoStateDelegate__OnSetLayer l (Some d)
        (w\<lparr>delegates := (delegates w)(l := UndoStateDelegate_New)\<rparr>))"

text \<open>
  The hooks.  The layer calls a hook of its delegate before it writes, so the layer is
  alive at the call: \<open>d\<close> is the data that \<^verbatim>\<open>_layer\<close> and \<^verbatim>\<open>_GetLayerData()\<close> read there.
\<close>

definition UndoStateDelegate__OnSetFieldImpl ::
  "layer_id \<Rightarrow> SdfData \<Rightarrow> path \<Rightarrow> token \<Rightarrow> world \<Rightarrow> world" where
  "UndoStateDelegate__OnSetFieldImpl l d p fieldName w =
     (let w1 = UndoStateDelegate__MarkCurrentStateAsDirty l w;
          inverseValue = GetField d p fieldName
      in UndoStateDelegate__RouteInverse (BindInvertSetField l p fieldName inverseValue) w1)"

definition UndoStateDelegate__OnSetFieldDictValueByKeyImpl ::
  "layer_id \<Rightarrow> SdfData \<Rightarrow> path \<Rightarrow> token \<Rightarrow> token \<Rightarrow> world \<Rightarrow> world" where
  "UndoStateDelegate__OnSetFieldDictValueByKeyImpl l d p fieldName keyPath w =
     (let w1 = UndoStateDelegate__MarkCurrentStateAsDirty l w;
          inverseValue = GetFieldDictValueByKey d p fieldName keyPath
      in UndoStateDelegate__RouteInverse
           (BindInvertSetFieldDictValueByKey l p fieldName keyPath inverseValue) w1)"

definition UndoStateDelegate__OnSetTimeSampleImpl ::
  "layer_id \<Rightarrow> SdfData \<Rightarrow> path \<Rightarrow> time \<Rightarrow> world \<Rightarrow> world" where
  "UndoStateDelegate__OnSetTimeSampleImpl l d p t w =
     (let w1 = UndoStateDelegate__MarkCurrentStateAsDirty l w
      in if \<not> HasField d p TimeSamples
         then UndoStateDelegate__RouteInverse (BindInvertSetField l p TimeSamples None) w1
         else (let oldValue = QueryTimeSample d p t
               in UndoStateDelegate__RouteInverse (BindInvertSetTimeSample l p t oldValue) w1))"

definition UndoStateDelegate__OnSetField ::
  "layer_id \<Rightarrow> SdfData \<Rightarrow> path \<Rightarrow> token \<Rightarrow> VtValue \<Rightarrow> world \<Rightarrow> world" where
  "UndoStateDelegate__OnSetField l d p fieldName v w =
     UndoStateDelegate__OnSetFieldImpl l d p fieldName w"

definition UndoStateDelegate__OnSetFieldDictValueByKey ::
  "layer_id \<Rightarrow> SdfData \<Rightarrow> path \<Rightarrow> token \<Rightarrow> token \<Rightarrow> VtValue \<Rightarrow> world \<Rightarrow> world" where
  "UndoStateDelegate__OnSetFieldDictValueByKey l d p fieldName keyPath v w =
     UndoStateDelegate__OnSetFieldDictValueByKeyImpl l d p fieldName keyPath w"

definition UndoStateDelegate__OnSetTimeSample ::
  "layer_id \<Rightarrow> SdfData \<Rightarrow> path \<Rightarrow> time \<Rightarrow> VtValue \<Rightarrow> world \<Rightarrow> world" where
  "UndoStateDelegate__OnSetTimeSample l d p t v w =
     UndoStateDelegate__OnSetTimeSampleImpl l d p t w"

definition UndoStateDelegate__OnCreateSpec ::
  "layer_id \<Rightarrow> path \<Rightarrow> SdfSpecType \<Rightarrow> bool \<Rightarrow> world \<Rightarrow> world" where
  "UndoStateDelegate__OnCreateSpec l p ty inert w =
     (let w1 = UndoStateDelegate__MarkCurrentStateAsDirty l w
      in UndoStateDelegate__RouteInverse (BindInvertCreateSpec l p inert) w1)"

text \<open>\<^verbatim>\<open>_CopySpec\<close>: create the spec in \<open>dst\<close> with the type it has in \<open>src\<close>, then set every
  field that \<open>src\<close> lists for it.\<close>
definition CopySpec :: "SdfData \<Rightarrow> SdfData \<Rightarrow> path \<Rightarrow> SdfData" where
  "CopySpec src dst specId =
     (let dst1 = CreateSpec_data specId (GetSpecType src specId) dst
      in fold (\<lambda>i acc. Set_field specId i (GetField src specId i) acc)
           (List_fields src specId) dst1)"

definition CopySpecAtPath :: "SdfData \<Rightarrow> SdfData \<Rightarrow> path \<Rightarrow> SdfData" where
  "CopySpecAtPath src dst p = CopySpec src dst p"

text \<open>\<^verbatim>\<open>_OnDeleteSpec\<close>: \<^verbatim>\<open>_GetLayer()->Traverse(path, copyFunc)\<close> copies every spec it visits
  into a new \<^verbatim>\<open>SdfData\<close>.\<close>
definition UndoStateDelegate__OnDeleteSpec ::
  "layer_id \<Rightarrow> SdfData \<Rightarrow> path \<Rightarrow> bool \<Rightarrow> world \<Rightarrow> world" where
  "UndoStateDelegate__OnDeleteSpec l d p inert w =
     (let w1 = UndoStateDelegate__MarkCurrentStateAsDirty l w;
          deletedData = fold (\<lambda>q acc. CopySpecAtPath d acc q) (subtree d p) fmempty;
          deletedSpecType = GetSpecType d p
      in UndoStateDelegate__RouteInverse
           (BindInvertDeleteSpec l p inert deletedSpecType deletedData) w1)"

definition UndoStateDelegate__OnMoveSpec ::
  "layer_id \<Rightarrow> path \<Rightarrow> path \<Rightarrow> world \<Rightarrow> world" where
  "UndoStateDelegate__OnMoveSpec l oldPath newPath w =
     (let w1 = UndoStateDelegate__MarkCurrentStateAsDirty l w
      in UndoStateDelegate__RouteInverse (BindInvertMoveSpec l oldPath newPath) w1)"

definition UndoStateDelegate__OnPushTokenChild ::
  "layer_id \<Rightarrow> path \<Rightarrow> token \<Rightarrow> token \<Rightarrow> world \<Rightarrow> world" where
  "UndoStateDelegate__OnPushTokenChild l parentPath fieldName v w =
     (let w1 = UndoStateDelegate__MarkCurrentStateAsDirty l w
      in UndoStateDelegate__RouteInverse (BindInvertPushTokenChild l parentPath fieldName v) w1)"

definition UndoStateDelegate__OnPushPathChild ::
  "layer_id \<Rightarrow> path \<Rightarrow> token \<Rightarrow> path \<Rightarrow> world \<Rightarrow> world" where
  "UndoStateDelegate__OnPushPathChild l parentPath fieldName v w =
     (let w1 = UndoStateDelegate__MarkCurrentStateAsDirty l w
      in UndoStateDelegate__RouteInverse (BindInvertPushPathChild l parentPath fieldName v) w1)"

definition UndoStateDelegate__OnPopTokenChild ::
  "layer_id \<Rightarrow> path \<Rightarrow> token \<Rightarrow> token \<Rightarrow> world \<Rightarrow> world" where
  "UndoStateDelegate__OnPopTokenChild l parentPath fieldName oldValue w =
     (let w1 = UndoStateDelegate__MarkCurrentStateAsDirty l w
      in UndoStateDelegate__RouteInverse
           (BindInvertPopTokenChild l parentPath fieldName oldValue) w1)"

definition UndoStateDelegate__OnPopPathChild ::
  "layer_id \<Rightarrow> path \<Rightarrow> token \<Rightarrow> path \<Rightarrow> world \<Rightarrow> world" where
  "UndoStateDelegate__OnPopPathChild l parentPath fieldName oldValue w =
     (let w1 = UndoStateDelegate__MarkCurrentStateAsDirty l w
      in UndoStateDelegate__RouteInverse
           (BindInvertPopPathChild l parentPath fieldName oldValue) w1)"


section \<open>The mutation calls of the state delegate\<close>

text \<open>
  Modelled from the spec: the methods that \<^verbatim>\<open>UsdQt_UndoStateDelegate\<close> inherits from the store's
  \<^verbatim>\<open>SdfLayerStateDelegateBase\<close> (\<^verbatim>\<open>SetField\<close>, \<^verbatim>\<open>CreateSpec\<close>, ...).  Each one is a primitive
  mutation that the delegate intercepts: it invokes the hook on the layer as it is, then
  the layer writes.  Every edit of a tracked layer arrives here, the host's as well as the
  replayed ones.  Nothing is written through a delegate whose layer has expired.
\<close>

definition SetField :: "layer_id \<Rightarrow> path \<Rightarrow> token \<Rightarrow> VtValue \<Rightarrow> world \<Rightarrow> world" where
  "SetField l p fieldName v w =
     (case layers w l of
        None \<Rightarrow> w
      | Some d \<Rightarrow>
          update_layer_data l (PrimSetField p fieldName v)
            (UndoStateDelegate__OnSetField l d p fieldName v w))"

definition SetFieldDictValueByKey ::
  "layer_id \<Rightarrow> path \<Rightarrow> token \<Rightarrow> token \<Rightarrow> VtValue \<Rightarrow> world \<Rightarrow> world" where
  "SetFieldDictValueByKey l p fieldName keyPath v w =
     (case layers w l of
        None \<Rightarrow> w
      | Some d \<Rightarrow>
          update_layer_data l (PrimSetFieldDictValueByKey p fieldName keyPath v)
            (UndoStateDelegate__OnSetFieldDictValueByKey l d p fieldName keyPath v w))"

definition SetTimeSample :: "layer_id \<Rightarrow> path \<Rightarrow> time \<Rightarrow> VtValue \<Rightarrow> world \<Rightarrow> world" where
  "SetTimeSample l p t v w =
     (case layers w l of
        None \<Rightarrow> w
      | Some d \<Rightarrow>
          update_layer_data l (PrimSetTimeSample p t v)
            (UndoStateDelegate__OnSetTimeSample l d p t v w))"

definition CreateSpec :: "layer_id \<Rightarrow> path \<Rightarrow> SdfSpecType \<Rightarrow> bool \<Rightarrow> world \<Rightarrow> world" where
  "CreateSpec l p ty inert w =
     (case layers w l of
        None \<Rightarrow> w
      | Some d \<Rightarrow>
          update_layer_data l (PrimCreateSpec p ty inert)
            (UndoStateDelegate__OnCreateSpec l p ty inert w))"

definition DeleteSpec :: "layer_id \<Rightarrow> path \<Rightarrow> bool \<Rightarrow> world \<Rightarrow> world" where
  "DeleteSpec l p inert w =
     (case layers w l of
        None \<Rightarrow> w
      | Some d \<Rightarrow>
          update_layer_data l (PrimDeleteSpec p inert)
            (UndoStateDelegate__OnDeleteSpec l d p inert w))"

definition MoveSpec :: "layer_id \<Rightarrow> path \<Rightarrow> path \<Rightarrow> world \<Rightarrow> world" where
  "MoveSpec l oldPath newPath w =
     (case layers w l of
        None \<Rightarrow> w
      | Some d \<Rightarrow>
          update_layer_data l (PrimMoveSpec oldPath newPath)
            (UndoStateDelegate__OnMoveSpec l oldPath newPath w))"

definition PushTokenChild :: "layer_id \<Rightarrow> path \<Rightarrow> token \<Rightarrow> token \<Rightarrow> world \<Rightarrow> world" where
  "PushTokenChild l parentPath fieldName v w =
     (case layers w l of
        None \<Rightarrow> w
      | Some d \<Rightarrow>
          update_layer_data l (PrimPushTokenChild parentPath fieldName v)
            (UndoStateDelegate__OnPushTokenChild l parentPath fieldName v w))"

definition PushPathChild :: "layer_id \<Rightarrow> path \<Rightarrow> token \<Rightarrow> path \<Rightarrow> world \<Rightarrow> world" where
  "PushPathChild l parentPath fieldName v w =
     (case layers w l of
        None \<Rightarrow> w
      | Some d \<Rightarrow>
          update_layer_data l (PrimPushPathChild parentPath fieldName v)
            (UndoStateDelegate__OnPushPathChild l parentPath fieldName v w))"

definition PopTokenChild :: "layer_id \<Rightarrow> path \<Rightarrow> token \<Rightarrow> token \<Rightarrow> world \<Rightarrow> world" where
  "PopTokenChild l parentPath fieldName oldValue w =
     (case layers w l of
        None \<Rightarrow> w
      | Some d \<Rightarrow>
          update_layer_data l (PrimPopTokenChild parentPath fieldName)
            (UndoStateDelegate__OnPopTokenChild l parentPath fieldName oldValue w))"

definition PopPathChild :: "layer_id \<Rightarrow> path \<Rightarrow> token \<Rightarrow> path \<Rightarrow> world \<Rightarrow> world" where
  "PopPathChild l parentPath fieldName oldValue w =
     (case layers w l of
        None \<Rightarrow> w
      | Some d \<Rightarrow>
          update_layer_data l (PrimPopPathChild parentPath fieldName)
            (UndoStateDelegate__OnPopPathChild l parentPath fieldName oldValue w))"

section \<open>UsdQt_UndoStateDelegate: applying inverses\<close>

definition UndoStateDelegate__InvertSetField ::
  "layer_id \<Rightarrow> path \<Rightarrow> token \<Rightarrow> VtValue \<Rightarrow> world \<Rightarrow> bool \<times> world" where
  "UndoStateDelegate__InvertSetField l p fieldName iv w =
     (if layers w l = None
      then (False, report (CodingError ''Cannot invert field for expired layer.'') w)
      else (True, SetField l p fieldName iv w))"

definition UndoStateDelegate__InvertSetFieldDictValueByKey ::
  "layer_id \<Rightarrow> path \<Rightarrow> token \<Rightarrow> token \<Rightarrow> VtValue \<Rightarrow> world \<Rightarrow> bool \<times> world" where
  "UndoStateDelegate__InvertSetFieldDictValueByKey l p fieldName keyPath iv w =
     (if layers w l = None
      then (False,
            report (CodingError ''Cannot invert field dictionary value for expired layer.'') w)
      else (True, SetFieldDictValueByKey l p fieldName keyPath iv w))"

definition UndoStateDelegate__InvertSetTimeSample ::
  "layer_id \<Rightarrow> path \<Rightarrow> time \<Rightarrow> VtValue \<Rightarrow> world \<Rightarrow> bool \<times> world" where
  "UndoStateDelegate__InvertSetTimeSample l p t iv w =
     (if layers w l = None
      then (False, report (CodingError ''Cannot invert time sample for expired layer.'') w)
      else (True, SetTimeSample l p t iv w))"

definition UndoStateDelegate__InvertCreateSpec ::
  "layer_id \<Rightarrow> path \<Rightarrow> bool \<Rightarrow> world \<Rightarrow> bool \<times> world" where
  "UndoStateDelegate__InvertCreateSpec l p inert w =
     (if layers w l = None
      then (False, report (CodingError ''Cannot invert spec creation for expired layer.'') w)
      else (True, DeleteSpec l p inert w))"

text \<open>\<^verbatim>\<open>_InvertDeleteSpec\<close>: create the spec through the delegate, then copy every spec of the
  snapshot into the layer's data (\<^verbatim>\<open>deletedData->VisitSpecs(&specCopier)\<close>), past the hooks.\<close>
definition UndoStateDelegate__InvertDeleteSpec ::
  "layer_id \<Rightarrow> path \<Rightarrow> bool \<Rightarrow> SdfSpecType \<Rightarrow> SdfData \<Rightarrow> world \<Rightarrow> bool \<times> world" where
  "UndoStateDelegate__InvertDeleteSpec l p inert deletedSpecType deletedData w =
     (if layers w l = None
      then (False, report (CodingError ''Cannot invert spec deletion for expired layer.'') w)
      else (let w1 = CreateSpec l p deletedSpecType inert w
            in (True,
                update_layer_data l
                  (\<lambda>dst. fold (\<lambda>specId acc. CopySpec deletedData acc specId)
                           (sorted_list_of_fset (fmdom deletedData)) dst) w1)))"

definition UndoStateDelegate__InvertMoveSpec ::
  "layer_id \<Rightarrow> path \<Rightarrow> path \<Rightarrow> world \<Rightarrow> bool \<times> world" where
  "UndoStateDelegate__InvertMoveSpec l oldPath newPath w =
     (if layers w l = None
      then (False, report (CodingError ''Cannot invert spec move for expired layer.'') w)
      else (True, MoveSpec l newPath oldPath w))"

definition UndoStateDelegate__InvertPushTokenChild ::
  "layer_id \<Rightarrow> path \<Rightarrow> token \<Rightarrow> token \<Rightarrow> world \<Rightarrow> bool \<times> world" where
  "UndoStateDelegate__InvertPushTokenChild l parentPath fieldName v w =
     (if layers w l = None
      then (False, report (CodingError ''Cannot invert push child for expired layer.'') w)
      else (True, PopTokenChild l parentPath fieldName v w))"

definition UndoStateDelegate__InvertPopTokenChild ::
  "layer_id \<Rightarrow> path \<Rightarrow> token \<Rightarrow> token \<Rightarrow> world \<Rightarrow> bool \<times> world" where
  "UndoStateDelegate__InvertPopTokenChild l parentPath fieldName v w =
     (if layers w l = None
      then (False, report (CodingError ''Cannot invert pop child for expired layer.'') w)
      else (True, PushTokenChild l parentPath fieldName v w))"

definition UndoStateDelegate__InvertPushPathChild ::
  "layer_id \<Rightarrow> path \<Rightarrow> token \<Rightarrow> path \<Rightarrow> world \<Rightarrow> bool \<times> world" where
  "UndoStateDelegate__InvertPushPathChild l parentPath fieldName v w =
     (if layers w l = None
      then (False, report (CodingError ''Cannot invert push child for expired layer.'') w)
      else (True, PopPathChild l parentPath fieldName v w))"

definition UndoStateDelegate__InvertPopPathChild ::
  "layer_id \<Rightarrow> path \<Rightarrow> token \<Rightarrow> path \<Rightarrow> world \<Rightarrow> bool \<times> world" where
  "UndoStateDelegate__InvertPopPathChild l parentPath fieldName v w =
     (if layers w l = None
      then (False, report (CodingError ''Cannot invert pop child for expired layer.'') w)
      else (True, PushPathChild l parentPath fieldName v w))"

text \<open>Calling a stored \<^verbatim>\<open>std::function<bool()>\<close>.\<close>
fun call :: "inverse \<Rightarrow> world \<Rightarrow> bool \<times> world" where
  "call (BindInvertSetField l p f v) w = UndoStateDelegate__InvertSetField l p f v w"
| "call (BindInvertSetFieldDictValueByKey l p f k v) w =
     UndoStateDelegate__InvertSetFieldDictValueByKey l p f k v w"
| "call (BindInvertSetTimeSample l p t v) w = UndoStateDelegate__InvertSetTimeSample l p t v w"
| "call (BindInvertCreateSpec l p inert) w = UndoStateDelegate__InvertCreateSpec l p inert w"
| "call (BindInvertDeleteSpec l p inert ty snap) w =
     UndoStateDelegate__InvertDeleteSpec l p inert ty snap w"
| "call (BindInvertMoveSpec l old new) w = UndoStateDelegate__InvertMoveSpec l old new w"
| "call (BindInvertPushTokenChild l p f v) w = UndoStateDelegate__InvertPushTokenChild l p f v w"
| "call (BindInvertPopTokenChild l p f v) w = UndoStateDelegate__InvertPopTokenChild l p f v w"
| "call (BindInvertPushPathChild l p f v) w = UndoStateDelegate__InvertPushPathChild l p f v w"
| "call (BindInvertPopPathChild l p f v) w = UndoStateDelegate__InvertPopPathChild l p f v w"

section \<open>UsdQtUndoInverse: replay\<close>

text \<open>The loop of \<^verbatim>\<open>_Invert\<close>: for \<open>i\<close> from 0, call \<^verbatim>\<open>_inversion[_inversion.size() - i - 1]\<close>;
  what the call returns is dropped.\<close>
function UndoInverse__Invert_loop :: "inverse list \<Rightarrow> nat \<Rightarrow> world \<Rightarrow> world" where
  "UndoInverse__Invert_loop this i w =
     (if i < length this
      then UndoInverse__Invert_loop this (i + 1) (snd (call (this ! (length this - i - 1)) w))
      else w)"
  by pat_completeness auto
termination
  by (relation "measure (\<lambda>(this, i, w). length this - i)") auto

declare UndoInverse__Invert_loop.simps [simp del]

definition UndoInverse__Invert :: "inverse list \<Rightarrow> world \<Rightarrow> world" where
  "UndoInverse__Invert this w = UndoInverse__Invert_loop this 0 w"

definition inversion_open_msg :: string where
  "inversion_open_msg = ''Inversion during open edit block may result in corrupted undo stack.''"

text \<open>\<^verbatim>\<open>UsdQtUndoInverse::Invert\<close>; the result is the transaction's new list and the world after
  \<^verbatim>\<open>editBlock\<close> has gone out of scope.\<close>
definition UndoInverse_Invert :: "inverse list \<Rightarrow> world \<Rightarrow> inverse list \<times> world" where
  "UndoInverse_Invert this w =
     (let w1 = (if depth w \<noteq> 0 then report (CodingError inversion_open_msg) w else w);
          w2 = UndoBlock__Initialize w1;
          w3 = UndoInverse__Invert this w2;
          this1 = UndoInverse__Clear this;
          this2 = UndoInverse__Adopt this1 (inversion w3);
          w4 = w3\<lparr>inversion := UndoInverse__Clear (inversion w3)\<rparr>
      in (this2, UndoBlock_destroy w4))"

text \<open>The private constructor \<^verbatim>\<open>UsdQtUndoInverse(UsdQtUndoRouter&)\<close>.\<close>
definition UndoInverse_from_router :: "world \<Rightarrow> inverse list \<times> world" where
  "UndoInverse_from_router w =
     (UndoInverse__Adopt [] (inversion w), w\<lparr>inversion := UndoInverse__Clear (inversion w)\<rparr>)"


section \<open>The host's edits\<close>

text \<open>An edit of a tracked layer by the host: one of the mutation calls above.\<close>
datatype edit =
    EditSetField layer_id path token VtValue
  | EditSetFieldDictValueByKey layer_id path token token VtValue
  | EditSetTimeSample layer_id path time VtValue
  | EditCreateSpec layer_id path SdfSpecType bool
  | EditDeleteSpec layer_id path bool
  | EditMoveSpec layer_id path path
  | EditPushTokenChild layer_id path token token
  | EditPushPathChild layer_id path token path
  | EditPopTokenChild layer_id path token token
  | EditPopPathChild layer_id path token path

fun perform :: "edit \<Rightarrow> world \<Rightarrow> world" where
  "perform (EditSetField l p f v) w = SetField l p f v w"
| "perform (EditSetFieldDictValueByKey l p f k v) w = SetFieldDictValueByKey l p f k v w"
| "perform (EditSetTimeSample l p t v) w = SetTimeSample l p t v w"
| "perform (EditCreateSpec l p ty inert) w = CreateSpec l p ty inert w"
| "perform (EditDeleteSpec l p inert) w = DeleteSpec l p inert w"
| "perform (EditMoveSpec l old new) w = MoveSpec l old new w"
| "perform (EditPushTokenChild l p f v) w = PushTokenChild l p f v w"
| "perform (EditPushPathChild l p f v) w = PushPathChild l p f v w"
| "perform (EditPopTokenChild l p f v) w = PopTokenChild l p f v w"
| "perform (EditPopPathChild l p f v) w = PopPathChild l p f v w"

text \<open>A batch: the edits are made while one \<^verbatim>\<open>UsdQtUndoBlock\<close> is in scope
  (\<^verbatim>\<open>with UsdQt.UndoBlock(): ...\<close>).\<close>
definition UndoBlock_batch :: "edit list \<Rightarrow> world \<Rightarrow> world" where
  "UndoBlock_batch es w = UndoBlock_destroy (fold perform es (UndoBlock__Initialize w))"

text \<open>Blocks opened \<open>n\<close> deep around \<open>body\<close>.\<close>
fun nested_blocks :: "nat \<Rightarrow> (world \<Rightarrow> world) \<Rightarrow> world \<Rightarrow> world" where
  "nested_blocks 0 body w = body w"
| "nested_blocks (Suc n) body w =
     UndoBlock_destroy (nested_blocks n body (UndoBlock__Initialize w))"

fun edit_layer :: "edit \<Rightarrow> layer_id" where
  "edit_layer (EditSetField l p f v) = l"
| "edit_layer (EditSetFieldDictValueByKey l p f k v) = l"
| "edit_layer (EditSetTimeSample l p t v) = l"
| "edit_layer (EditCreateSpec l p ty inert) = l"
| "edit_layer (EditDeleteSpec l p inert) = l"
| "edit_layer (EditMoveSpec l old new) = l"
| "edit_layer (EditPushTokenChild l p f v) = l"
| "edit_layer (EditPushPathChild l p f v) = l"
| "edit_layer (EditPopTokenChild l p f v) = l"
| "edit_layer (EditPopPathChild l p f v) = l"

text \<open>What the layer writes for an edit.\<close>
fun edit_writes :: "edit \<Rightarrow> SdfData \<Rightarrow> SdfData" where
  "edit_writes (EditSetField l p f v) d = PrimSetField p f v d"
| "edit_writes (EditSetFieldDictValueByKey l p f k v) d = PrimSetFieldDictValueByKey p f k v d"
| "edit_writes (EditSetTimeSample l p t v) d = PrimSetTimeSample p t v d"
| "edit_writes (EditCreateSpec l p ty inert) d = PrimCreateSpec p ty inert d"
| "edit_writes (EditDeleteSpec l p inert) d = PrimDeleteSpec p inert d"
| "edit_writes (EditMoveSpec l old new) d = PrimMoveSpec old new d"
| "edit_writes (EditPushTokenChild l p f v) d = PrimPushTokenChild p f v d"
| "edit_writes (EditPushPathChild l p f v) d = PrimPushPathChild p f v d"
| "edit_writes (EditPopTokenChild l p f v) d = PrimPopTokenChild p f d"
| "edit_writes (EditPopPathChild l p f v) d = PrimPopPathChild p f d"

text \<open>
  The calls as the store makes them on its delegate: a spec is created where no spec is, at
  the path or below it; a spec moves to where no spec is, and not into or out of its own
  subtree; a child is pushed onto a list that exists, and the child that is popped is the
  last one of its list.  A field, a dictionary entry and a time sample are written, and a
  spec is deleted, without a condition.
\<close>
fun store_call :: "edit \<Rightarrow> SdfData \<Rightarrow> bool" where
  "store_call (EditSetField l p f v) d = True"
| "store_call (EditSetFieldDictValueByKey l p f k v) d = True"
| "store_call (EditSetTimeSample l p t v) d = True"
| "store_call (EditCreateSpec l p ty inert) d = (subtree d p = [])"
| "store_call (EditDeleteSpec l p inert) d = True"
| "store_call (EditMoveSpec l old new) d =
     (subtree d new = [] \<and> \<not> prefix old new \<and> \<not> prefix new old)"
| "store_call (EditPushTokenChild l p f v) d =
     (case GetField d p f of
        None \<Rightarrow> fmlookup d p = None
      | Some (VtTokenVector xs) \<Rightarrow> True
      | Some _ \<Rightarrow> False)"
| "store_call (EditPushPathChild l p f v) d =
     (case GetField d p f of
        None \<Rightarrow> fmlookup d p = None
      | Some (VtPathVector xs) \<Rightarrow> True
      | Some _ \<Rightarrow> False)"
| "store_call (EditPopTokenChild l p f v) d =
     (case GetField d p f of
        None \<Rightarrow> fmlookup d p = None
      | Some (VtTokenVector xs) \<Rightarrow> xs \<noteq> [] \<and> last xs = v
      | Some _ \<Rightarrow> False)"
| "store_call (EditPopPathChild l p f v) d =
     (case GetField d p f of
        None \<Rightarrow> fmlookup d p = None
      | Some (VtPathVector xs) \<Rightarrow> xs \<noteq> [] \<and> last xs = v
      | Some _ \<Rightarrow> False)"

text \<open>
  The writes of an entry that find their container: a dictionary entry or a time sample is
  written to a field that is absent or that holds a dictionary or a sample map with an entry
  in it.  On a field that holds an empty dictionary or sample map no entry is written or
  removed, and on a field that holds a value of another kind an entry is only removed, which
  writes nothing.  The other edits write no entry.
\<close>
fun entry_ok :: "edit \<Rightarrow> SdfData \<Rightarrow> bool" where
  "entry_ok (EditSetFieldDictValueByKey l p f k v) d =
     (case GetField d p f of
        None \<Rightarrow> True
      | Some (VtDictionary m) \<Rightarrow> m \<noteq> fmempty
      | Some _ \<Rightarrow> v = None)"
| "entry_ok (EditSetTimeSample l p t v) d =
     (case GetField d p TimeSamples of
        None \<Rightarrow> True
      | Some (VtTimeSamples m) \<Rightarrow> m \<noteq> fmempty
      | Some _ \<Rightarrow> v = None)"
| "entry_ok (EditSetField l p f v) d = True"
| "entry_ok (EditCreateSpec l p ty inert) d = True"
| "entry_ok (EditDeleteSpec l p inert) d = True"
| "entry_ok (EditMoveSpec l old new) d = True"
| "entry_ok (EditPushTokenChild l p f v) d = True"
| "entry_ok (EditPushPathChild l p f v) d = True"
| "entry_ok (EditPopTokenChild l p f v) d = True"
| "entry_ok (EditPopPathChild l p f v) d = True"

text \<open>The edits whose inverse gives the layer back as it was: the calls as the store makes
  them that write an entry only where it finds its container.\<close>
definition edit_ok :: "edit \<Rightarrow> SdfData \<Rightarrow> bool" where
  "edit_ok e d = (store_call e d \<and> entry_ok e d)"

text \<open>Every edit of the batch is made on a layer that is alive, and is such an edit of the
  layer as the edits before it have left it.\<close>
fun batch_ok :: "edit list \<Rightarrow> (layer_id \<Rightarrow> SdfData option) \<Rightarrow> bool" where
  "batch_ok [] L = True"
| "batch_ok (e # es) L =
     (case L (edit_layer e) of
        None \<Rightarrow> False
      | Some d \<Rightarrow> edit_ok e d \<and> batch_ok es (L(edit_layer e \<mapsto> edit_writes e d)))"

section \<open>What a call does, read off the code\<close>

text \<open>The delegate a closure is bound to.\<close>
fun call_layer :: "inverse \<Rightarrow> layer_id" where
  "call_layer (BindInvertSetField l p f v) = l"
| "call_layer (BindInvertSetFieldDictValueByKey l p f k v) = l"
| "call_layer (BindInvertSetTimeSample l p t v) = l"
| "call_layer (BindInvertCreateSpec l p inert) = l"
| "call_layer (BindInvertDeleteSpec l p inert ty snap) = l"
| "call_layer (BindInvertMoveSpec l old new) = l"
| "call_layer (BindInvertPushTokenChild l p f v) = l"
| "call_layer (BindInvertPopTokenChild l p f v) = l"
| "call_layer (BindInvertPushPathChild l p f v) = l"
| "call_layer (BindInvertPopPathChild l p f v) = l"

text \<open>What the layer writes when the closure is called.\<close>
fun call_writes :: "inverse \<Rightarrow> SdfData \<Rightarrow> SdfData" where
  "call_writes (BindInvertSetField l p f v) d = PrimSetField p f v d"
| "call_writes (BindInvertSetFieldDictValueByKey l p f k v) d =
     PrimSetFieldDictValueByKey p f k v d"
| "call_writes (BindInvertSetTimeSample l p t v) d = PrimSetTimeSample p t v d"
| "call_writes (BindInvertCreateSpec l p inert) d = PrimDeleteSpec p inert d"
| "call_writes (BindInvertDeleteSpec l p inert ty snap) d =
     fold (\<lambda>specId acc. CopySpec snap acc specId) (sorted_list_of_fset (fmdom snap))
       (PrimCreateSpec p ty inert d)"
| "call_writes (BindInvertMoveSpec l old new) d = PrimMoveSpec new old d"
| "call_writes (BindInvertPushTokenChild l p f v) d = PrimPopTokenChild p f d"
| "call_writes (BindInvertPopTokenChild l p f v) d = PrimPushTokenChild p f v d"
| "call_writes (BindInvertPushPathChild l p f v) d = PrimPopPathChild p f d"
| "call_writes (BindInvertPopPathChild l p f v) d = PrimPushPathChild p f v d"

text \<open>The closure that the hook binds when the closure is called.\<close>
fun call_binds :: "inverse \<Rightarrow> SdfData \<Rightarrow> inverse" where
  "call_binds (BindInvertSetField l p f v) d = BindInvertSetField l p f (GetField d p f)"
| "call_binds (BindInvertSetFieldDictValueByKey l p f k v) d =
     BindInvertSetFieldDictValueByKey l p f k (GetFieldDictValueByKey d p f k)"
| "call_binds (BindInvertSetTimeSample l p t v) d =
     (if \<not> HasField d p TimeSamples then BindInvertSetField l p TimeSamples None
      else BindInvertSetTimeSample l p t (QueryTimeSample d p t))"
| "call_binds (BindInvertCreateSpec l p inert) d =
     BindInvertDeleteSpec l p inert (GetSpecType d p)
       (fold (\<lambda>q acc. CopySpecAtPath d acc q) (subtree d p) fmempty)"
| "call_binds (BindInvertDeleteSpec l p inert ty snap) d = BindInvertCreateSpec l p inert"
| "call_binds (BindInvertMoveSpec l old new) d = BindInvertMoveSpec l new old"
| "call_binds (BindInvertPushTokenChild l p f v) d = BindInvertPopTokenChild l p f v"
| "call_binds (BindInvertPopTokenChild l p f v) d = BindInvertPushTokenChild l p f v"
| "call_binds (BindInvertPushPathChild l p f v) d = BindInvertPopPathChild l p f v"
| "call_binds (BindInvertPopPathChild l p f v) d = BindInvertPushPathChild l p f v"

text \<open>The coding error that the closure posts when its layer has expired.\<close>
fun expired_msg :: "inverse \<Rightarrow> string" where
  "expired_msg (BindInvertSetField l p f v) = ''Cannot invert field for expired layer.''"
| "expired_msg (BindInvertSetFieldDictValueByKey l p f k v) =
     ''Cannot invert field dictionary value for expired layer.''"
| "expired_msg (BindInvertSetTimeSample l p t v) = ''Cannot invert time sample for expired layer.''"
| "expired_msg (BindInvertCreateSpec l p inert) = ''Cannot invert spec creation for expired layer.''"
| "expired_msg (BindInvertDeleteSpec l p inert ty snap) =
     ''Cannot invert spec deletion for expired layer.''"
| "expired_msg (BindInvertMoveSpec l old new) = ''Cannot invert spec move for expired layer.''"
| "expired_msg (BindInvertPushTokenChild l p f v) = ''Cannot invert push child for expired layer.''"
| "expired_msg (BindInvertPopTokenChild l p f v) = ''Cannot invert pop child for expired layer.''"
| "expired_msg (BindInvertPushPathChild l p f v) = ''Cannot invert push child for expired layer.''"
| "expired_msg (BindInvertPopPathChild l p f v) = ''Cannot invert pop child for expired layer.''"

text \<open>The world after the call of a closure whose layer is alive and holds \<open>d\<close>: the delegate
  is dirty, the hook has routed its closure, the layer has written.\<close>
definition committed :: "inverse \<Rightarrow> SdfData \<Rightarrow> world \<Rightarrow> world" where
  "committed iv d w =
     update_layer_data (call_layer iv) (\<lambda>_. call_writes iv d)
       (UndoStateDelegate__RouteInverse (call_binds iv d)
          (UndoStateDelegate__MarkCurrentStateAsDirty (call_layer iv) w))"

text \<open>Calling closures one after the other on the layers alone: the layers afterwards and the
  closures that the hooks bind, in the order of the calls.  A closure whose layer has
  expired writes and binds nothing.\<close>
fun replay ::
  "inverse list \<Rightarrow> (layer_id \<Rightarrow> SdfData option) \<Rightarrow> (layer_id \<Rightarrow> SdfData option) \<times> inverse list" where
  "replay [] L = (L, [])"
| "replay (iv # ivs) L =
     (case L (call_layer iv) of
        None \<Rightarrow> replay ivs L
      | Some d \<Rightarrow>
          (case replay ivs (L(call_layer iv \<mapsto> call_writes iv d)) of
             (L', js) \<Rightarrow> (L', call_binds iv d # js)))"

text \<open>The closure whose call is the edit.\<close>
fun as_call :: "edit \<Rightarrow> inverse" where
  "as_call (EditSetField l p f v) = BindInvertSetField l p f v"
| "as_call (EditSetFieldDictValueByKey l p f k v) = BindInvertSetFieldDictValueByKey l p f k v"
| "as_call (EditSetTimeSample l p t v) = BindInvertSetTimeSample l p t v"
| "as_call (EditCreateSpec l p ty inert) = BindInvertDeleteSpec l p inert ty fmempty"
| "as_call (EditDeleteSpec l p inert) = BindInvertCreateSpec l p inert"
| "as_call (EditMoveSpec l old new) = BindInvertMoveSpec l new old"
| "as_call (EditPushTokenChild l p f v) = BindInvertPopTokenChild l p f v"
| "as_call (EditPushPathChild l p f v) = BindInvertPopPathChild l p f v"
| "as_call (EditPopTokenChild l p f v) = BindInvertPushTokenChild l p f v"
| "as_call (EditPopPathChild l p f v) = BindInvertPushPathChild l p f v"


section \<open>Sequences of calls and example worlds\<close>

datatype mute_call = CallMute | CallUnmute

fun do_mute_call :: "mute_call \<Rightarrow> world \<Rightarrow> world" where
  "do_mute_call CallMute w = UndoRouter__Mute w"
| "do_mute_call CallUnmute w = UndoRouter__Unmute w"

text \<open>The router as it is constructed (\<^verbatim>\<open>_depth = 0\<close>, \<^verbatim>\<open>_muteDepth = 0\<close>, nothing tracked).\<close>
definition initial_world :: "listener \<Rightarrow> world" where
  "initial_world h =
     \<lparr>depth = 0, inversion = [], muteDepth = 0,
      delegates = (\<lambda>_. \<lparr>layer = None, dirty = False\<rparr>),
      notices = 0, diagnostics = [], listener = h, undoStack = []\<rparr>"

text \<open>A layer with the prim \<^verbatim>\<open>/World\<close> (field \<^verbatim>\<open>size = 5\<close>) and its attribute \<^verbatim>\<open>/World.radius\<close>.\<close>
definition example_data :: SdfData where
  "example_data =
     fmupd [''World'', ''radius'']
       \<lparr>specType = SdfSpecTypeAttribute,
        specFields = fmupd ''default'' (VtInt 2) (fmupd ''typeName'' (VtString ''double'') fmempty)\<rparr>
       (fmupd [''World'']
          \<lparr>specType = SdfSpecTypePrim, specFields = fmupd ''size'' (VtInt 5) fmempty\<rparr>
          fmempty)"

definition example_world :: world where
  "example_world = snd (TrackLayer 0 example_data (initial_world AdoptingListener))"

text \<open>The example layer after the host has set the field \<^verbatim>\<open>customData\<close> of \<^verbatim>\<open>/World\<close> to the
  empty dictionary, in a batch of its own.\<close>
definition emptied_dictionary_world :: world where
  "emptied_dictionary_world =
     UndoBlock_batch [EditSetField 0 [''World''] ''customData'' (Some (VtDictionary fmempty))]
       example_world"

text \<open>The example layer after the host has set the time samples of \<^verbatim>\<open>/World.radius\<close> to the
  empty sample map, in a batch of its own.\<close>
definition emptied_samples_world :: world where
  "emptied_samples_world =
     UndoBlock_batch
       [EditSetField 0 [''World'', ''radius''] TimeSamples (Some (VtTimeSamples fmempty))]
       example_world"


section \<open>The value that a primitive writes to its field\<close>

text \<open>The primitives for dictionary entries, time samples and children read one field and
  write it back; these are the values they write, for the value \<open>cur\<close> that they read.\<close>

definition dict_put :: "token \<Rightarrow> VtValue \<Rightarrow> VtValue \<Rightarrow> VtValue" where
  "dict_put k v cur =
     (case v of
        None \<Rightarrow>
          (case cur of
             Some (VtDictionary m) \<Rightarrow>
               (if fmdrop k m = fmempty then None else Some (VtDictionary (fmdrop k m)))
           | _ \<Rightarrow> cur)
      | Some x \<Rightarrow>
          Some (VtDictionary (fmupd k x (case cur of Some (VtDictionary m) \<Rightarrow> m | _ \<Rightarrow> fmempty))))"

definition samples_put :: "time \<Rightarrow> VtValue \<Rightarrow> VtValue \<Rightarrow> VtValue" where
  "samples_put t v cur =
     (case v of
        None \<Rightarrow>
          (case cur of
             Some (VtTimeSamples m) \<Rightarrow>
               (if fmdrop t m = fmempty then None else Some (VtTimeSamples (fmdrop t m)))
           | _ \<Rightarrow> cur)
      | Some x \<Rightarrow>
          Some (VtTimeSamples (fmupd t x (case cur of Some (VtTimeSamples m) \<Rightarrow> m | _ \<Rightarrow> fmempty))))"

definition tokens_push :: "token \<Rightarrow> VtValue \<Rightarrow> VtValue" where
  "tokens_push v cur =
     Some (VtTokenVector ((case cur of Some (VtTokenVector xs) \<Rightarrow> xs | _ \<Rightarrow> []) @ [v]))"

definition tokens_pop :: "VtValue \<Rightarrow> VtValue" where
  "tokens_pop cur =
     (case cur of
        Some (VtTokenVector xs) \<Rightarrow> (if xs = [] then cur else Some (VtTokenVector (butlast xs)))
      | _ \<Rightarrow> cur)"

definition paths_push :: "path \<Rightarrow> VtValue \<Rightarrow> VtValue" where
  "paths_push v cur =
     Some (VtPathVector ((case cur of Some (VtPathVector xs) \<Rightarrow> xs | _ \<Rightarrow> []) @ [v]))"

definition paths_pop :: "VtValue \<Rightarrow> VtValue" where
  "paths_pop cur =
     (case cur of
        Some (VtPathVector xs) \<Rightarrow> (if xs = [] then cur else Some (VtPathVector (butlast xs)))
      | _ \<Rightarrow> cur)"


text \<open>The transaction that the listener adopted last.\<close>
definition adopted :: "world \<Rightarrow> inverse list" where
  "adopted w = (case undoStack w of [] \<Rightarrow> [] | t # _ \<Rightarrow> t)"


section \<open>Lemmas: lists, router, block\<close>

lemmas example_defs =
  example_world_def TrackLayer_def UndoStateDelegate__OnSetLayer_def UndoStateDelegate_New_def
  initial_world_def

lemma Adopt_take:
  "k \<le> length other \<Longrightarrow>
   fold (\<lambda>i acc. acc @ [other ! i]) [0..<k] this = this @ take k other"
  by (induction k) (simp_all add: take_Suc_conv_app_nth)

lemma Adopt_append: "UndoInverse__Adopt this other = this @ other"
  by (simp add: UndoInverse__Adopt_def Adopt_take)

lemmas list_defs = Adopt_append UndoInverse__Append_def UndoInverse__Clear_def UndoInverse__GetSize_def

lemma AddInverse_open:
  "depth w \<ge> 1 \<Longrightarrow> UndoRouter__AddInverse iv w = w\<lparr>inversion := inversion w @ [iv]\<rparr>"
  by (simp add: UndoRouter__AddInverse_def UndoBlock__Initialize_def UndoBlock_destroy_def
      list_defs Let_def)

lemma Invert_loop_fold:
  "i \<le> length this \<Longrightarrow>
   UndoInverse__Invert_loop this i w =
     fold (\<lambda>iv w. snd (call iv w)) (rev (take (length this - i) this)) w"
proof (induction this i w rule: UndoInverse__Invert_loop.induct)
  case (1 this i w)
  show ?case
  proof (cases "i < length this")
    case True
    then have k: "length this - i = Suc (length this - i - 1)" by simp
    have "length this - i - 1 < length this" using True by simp
    then have t: "take (length this - i) this =
        take (length this - i - 1) this @ [this ! (length this - i - 1)]"
      by (subst k) (simp add: take_Suc_conv_app_nth)
    have "UndoInverse__Invert_loop this i w =
       UndoInverse__Invert_loop this (i + 1) (snd (call (this ! (length this - i - 1)) w))"
      using True by (subst UndoInverse__Invert_loop.simps) simp
    also have "\<dots> = fold (\<lambda>iv w. snd (call iv w)) (rev (take (length this - (i + 1)) this))
        (snd (call (this ! (length this - i - 1)) w))"
      using True by (intro "1.IH") simp_all
    finally show ?thesis by (simp add: t)
  next
    case False
    then show ?thesis using "1.prems"
      by (subst UndoInverse__Invert_loop.simps) simp
  qed
qed

lemma Invert_fold: "UndoInverse__Invert this w = fold (\<lambda>iv w. snd (call iv w)) (rev this) w"
  by (simp add: UndoInverse__Invert_def Invert_loop_fold)

lemma layers_mark [simp]: "layers (UndoStateDelegate__MarkCurrentStateAsDirty l w) = layers w"
  by (auto simp: layers_def UndoStateDelegate__MarkCurrentStateAsDirty_def)

lemma update_layer_data_const:
  "layers w l = Some d \<Longrightarrow> update_layer_data l g w = update_layer_data l (\<lambda>_. g d) w"
  by (simp add: update_layer_data_def layers_def)

lemma update_layer_data_twice:
  "update_layer_data l g (update_layer_data l h w) = update_layer_data l (g \<circ> h) w"
  by (simp add: update_layer_data_def option.map_comp)

lemma layers_route [simp]: "layers (UndoStateDelegate__RouteInverse iv w) = layers w"
  by (auto simp: layers_def UndoStateDelegate__RouteInverse_def UndoRouter__AddInverse_def
      UndoBlock__Initialize_def UndoBlock_destroy_def UndoStackNotice_Send_def TransferEdits_def
      report_def Let_def split: listener.splits)

lemmas hook_defs =
  UndoStateDelegate__OnSetField_def UndoStateDelegate__OnSetFieldImpl_def
  UndoStateDelegate__OnSetFieldDictValueByKey_def UndoStateDelegate__OnSetFieldDictValueByKeyImpl_def
  UndoStateDelegate__OnSetTimeSample_def UndoStateDelegate__OnSetTimeSampleImpl_def
  UndoStateDelegate__OnCreateSpec_def UndoStateDelegate__OnDeleteSpec_def
  UndoStateDelegate__OnMoveSpec_def
  UndoStateDelegate__OnPushTokenChild_def UndoStateDelegate__OnPushPathChild_def
  UndoStateDelegate__OnPopTokenChild_def UndoStateDelegate__OnPopPathChild_def

lemmas method_defs =
  SetField_def SetFieldDictValueByKey_def SetTimeSample_def CreateSpec_def DeleteSpec_def
  MoveSpec_def PushTokenChild_def PushPathChild_def PopTokenChild_def PopPathChild_def

lemmas invert_defs =
  UndoStateDelegate__InvertSetField_def UndoStateDelegate__InvertSetFieldDictValueByKey_def
  UndoStateDelegate__InvertSetTimeSample_def UndoStateDelegate__InvertCreateSpec_def
  UndoStateDelegate__InvertDeleteSpec_def UndoStateDelegate__InvertMoveSpec_def
  UndoStateDelegate__InvertPushTokenChild_def UndoStateDelegate__InvertPopTokenChild_def
  UndoStateDelegate__InvertPushPathChild_def UndoStateDelegate__InvertPopPathChild_def

lemma call_live:
  assumes "layers w (call_layer iv) = Some d"
  shows "call iv w = (True, committed iv d w)"
proof (cases iv)
  case (BindInvertSetField l p f v)
  then show ?thesis using assms
    by (simp add: invert_defs method_defs hook_defs committed_def Let_def
        update_layer_data_const[where g="PrimSetField p f v"])
next
  case (BindInvertSetFieldDictValueByKey l p f k v)
  then show ?thesis using assms
    by (simp add: invert_defs method_defs hook_defs committed_def Let_def
        update_layer_data_const[where g="PrimSetFieldDictValueByKey p f k v"])
next
  case (BindInvertSetTimeSample l p t v)
  then show ?thesis using assms
    by (simp add: invert_defs method_defs hook_defs committed_def Let_def
        update_layer_data_const[where g="PrimSetTimeSample p t v"])
next
  case (BindInvertCreateSpec l p inert)
  then show ?thesis using assms
    by (simp add: invert_defs method_defs hook_defs committed_def Let_def
        update_layer_data_const[where g="PrimDeleteSpec p inert"])
next
  case (BindInvertDeleteSpec l p inert ty snap)
  then show ?thesis using assms
    by (simp add: invert_defs method_defs hook_defs committed_def Let_def
        update_layer_data_twice comp_def
        update_layer_data_const[where g="\<lambda>x. fold (\<lambda>specId acc. CopySpec snap acc specId)
          (sorted_list_of_fset (fmdom snap)) (PrimCreateSpec p ty inert x)"])
next
  case (BindInvertMoveSpec l old new)
  then show ?thesis using assms
    by (simp add: invert_defs method_defs hook_defs committed_def Let_def
        update_layer_data_const[where g="PrimMoveSpec new old"])
next
  case (BindInvertPushTokenChild l p f v)
  then show ?thesis using assms
    by (simp add: invert_defs method_defs hook_defs committed_def Let_def
        update_layer_data_const[where g="PrimPopTokenChild p f"])
next
  case (BindInvertPopTokenChild l p f v)
  then show ?thesis using assms
    by (simp add: invert_defs method_defs hook_defs committed_def Let_def
        update_layer_data_const[where g="PrimPushTokenChild p f v"])
next
  case (BindInvertPushPathChild l p f v)
  then show ?thesis using assms
    by (simp add: invert_defs method_defs hook_defs committed_def Let_def
        update_layer_data_const[where g="PrimPopPathChild p f"])
next
  case (BindInvertPopPathChild l p f v)
  then show ?thesis using assms
    by (simp add: invert_defs method_defs hook_defs committed_def Let_def
        update_layer_data_const[where g="PrimPushPathChild p f v"])
qed


lemma call_expired:
  assumes "layers w (call_layer iv) = None"
  shows "call iv w = (False, report (CodingError (expired_msg iv)) w)"
  using assms by (cases iv) (simp_all add: invert_defs)

declare call.simps [simp del]

lemma Route_open:
  "depth w \<ge> 1 \<Longrightarrow> \<not> IsMuted w \<Longrightarrow>
   UndoStateDelegate__RouteInverse iv w = w\<lparr>inversion := inversion w @ [iv]\<rparr>"
  by (simp add: UndoStateDelegate__RouteInverse_def AddInverse_open)

lemma Route_muted:
  "IsMuted w \<Longrightarrow> UndoStateDelegate__RouteInverse iv w =
     report (Warn ''Performance Warning.  Inverse should be muted earlier in stack.'') w"
  by (simp add: UndoStateDelegate__RouteInverse_def)

lemma Route_depth [simp]: "depth (UndoStateDelegate__RouteInverse iv w) = depth w"
  by (auto simp: UndoStateDelegate__RouteInverse_def UndoRouter__AddInverse_def
      UndoBlock__Initialize_def UndoBlock_destroy_def UndoStackNotice_Send_def TransferEdits_def
      report_def Let_def split: listener.splits)

lemma Route_muteDepth [simp]: "muteDepth (UndoStateDelegate__RouteInverse iv w) = muteDepth w"
  by (auto simp: UndoStateDelegate__RouteInverse_def UndoRouter__AddInverse_def
      UndoBlock__Initialize_def UndoBlock_destroy_def UndoStackNotice_Send_def TransferEdits_def
      report_def Let_def split: listener.splits)

lemma Route_listener [simp]: "listener (UndoStateDelegate__RouteInverse iv w) = listener w"
  by (auto simp: UndoStateDelegate__RouteInverse_def UndoRouter__AddInverse_def
      UndoBlock__Initialize_def UndoBlock_destroy_def UndoStackNotice_Send_def TransferEdits_def
      report_def Let_def split: listener.splits)

lemma Route_notices_open:
  "depth w \<ge> 1 \<Longrightarrow> notices (UndoStateDelegate__RouteInverse iv w) = notices w"
  by (auto simp: UndoStateDelegate__RouteInverse_def AddInverse_open report_def)

lemma Route_undoStack_open:
  "depth w \<ge> 1 \<Longrightarrow> undoStack (UndoStateDelegate__RouteInverse iv w) = undoStack w"
  by (auto simp: UndoStateDelegate__RouteInverse_def AddInverse_open report_def)

lemma mark_fields [simp]:
  "depth (UndoStateDelegate__MarkCurrentStateAsDirty l w) = depth w"
  "inversion (UndoStateDelegate__MarkCurrentStateAsDirty l w) = inversion w"
  "muteDepth (UndoStateDelegate__MarkCurrentStateAsDirty l w) = muteDepth w"
  "notices (UndoStateDelegate__MarkCurrentStateAsDirty l w) = notices w"
  "diagnostics (UndoStateDelegate__MarkCurrentStateAsDirty l w) = diagnostics w"
  "listener (UndoStateDelegate__MarkCurrentStateAsDirty l w) = listener w"
  "undoStack (UndoStateDelegate__MarkCurrentStateAsDirty l w) = undoStack w"
  "IsMuted (UndoStateDelegate__MarkCurrentStateAsDirty l w) = IsMuted w"
  by (simp_all add: UndoStateDelegate__MarkCurrentStateAsDirty_def IsMuted_def)

lemma update_fields [simp]:
  "depth (update_layer_data l g w) = depth w"
  "inversion (update_layer_data l g w) = inversion w"
  "muteDepth (update_layer_data l g w) = muteDepth w"
  "notices (update_layer_data l g w) = notices w"
  "diagnostics (update_layer_data l g w) = diagnostics w"
  "listener (update_layer_data l g w) = listener w"
  "undoStack (update_layer_data l g w) = undoStack w"
  "IsMuted (update_layer_data l g w) = IsMuted w"
  by (simp_all add: update_layer_data_def IsMuted_def)

lemma report_fields [simp]:
  "depth (report e w) = depth w"
  "inversion (report e w) = inversion w"
  "muteDepth (report e w) = muteDepth w"
  "notices (report e w) = notices w"
  "diagnostics (report e w) = diagnostics w @ [e]"
  "listener (report e w) = listener w"
  "undoStack (report e w) = undoStack w"
  "layers (report e w) = layers w"
  "IsMuted (report e w) = IsMuted w"
  by (simp_all add: report_def IsMuted_def layers_def fun_eq_iff)

lemma layers_update:
  "layers (update_layer_data l g w) = (layers w)(l := map_option g (layers w l))"
  by (auto simp: update_layer_data_def layers_def)

lemma committed_fields:
  "depth (committed iv d w) = depth w"
  "muteDepth (committed iv d w) = muteDepth w"
  "listener (committed iv d w) = listener w"
  "layers w (call_layer iv) = Some d' \<Longrightarrow>
     layers (committed iv d w) = (layers w)(call_layer iv \<mapsto> call_writes iv d)"
  "depth w \<ge> 1 \<Longrightarrow> notices (committed iv d w) = notices w"
  "depth w \<ge> 1 \<Longrightarrow> undoStack (committed iv d w) = undoStack w"
  "depth w \<ge> 1 \<Longrightarrow> \<not> IsMuted w \<Longrightarrow>
     inversion (committed iv d w) = inversion w @ [call_binds iv d]"
  "depth w \<ge> 1 \<Longrightarrow> \<not> IsMuted w \<Longrightarrow> diagnostics (committed iv d w) = diagnostics w"
  by (simp_all add: committed_def layers_update Route_notices_open Route_undoStack_open Route_open)

lemma call_depth: "depth (snd (call iv w)) = depth w"
proof (cases "layers w (call_layer iv)")
  case None then show ?thesis by (simp add: call_expired)
next
  case (Some d) then show ?thesis by (simp add: call_live committed_fields)
qed

lemma call_notices_open: "depth w \<ge> 1 \<Longrightarrow> notices (snd (call iv w)) = notices w"
proof (cases "layers w (call_layer iv)")
  case None then show ?thesis by (simp add: call_expired)
next
  case (Some d) assume "depth w \<ge> 1" with Some show ?thesis by (simp add: call_live committed_fields)
qed

lemma fold_call_depth: "depth (fold (\<lambda>iv w. snd (call iv w)) ivs w) = depth w"
  by (induction ivs arbitrary: w) (simp_all add: call_depth)

lemma fold_call_notices_open:
  "depth w \<ge> 1 \<Longrightarrow> notices (fold (\<lambda>iv w. snd (call iv w)) ivs w) = notices w"
  by (induction ivs arbitrary: w) (simp_all add: call_depth call_notices_open)

lemma call_open:
  assumes "depth w \<ge> 1" "\<not> IsMuted w"
  shows "layers (snd (call iv w)) = fst (replay [iv] (layers w))"
    and "inversion (snd (call iv w)) = inversion w @ snd (replay [iv] (layers w))"
    and "muteDepth (snd (call iv w)) = muteDepth w"
    and "listener (snd (call iv w)) = listener w"
    and "undoStack (snd (call iv w)) = undoStack w"
proof -
  show "layers (snd (call iv w)) = fst (replay [iv] (layers w))"
    using assms by (cases "layers w (call_layer iv)") (simp_all add: call_expired call_live committed_fields)
  show "inversion (snd (call iv w)) = inversion w @ snd (replay [iv] (layers w))"
    using assms by (cases "layers w (call_layer iv)") (simp_all add: call_expired call_live committed_fields)
  show "muteDepth (snd (call iv w)) = muteDepth w"
    using assms by (cases "layers w (call_layer iv)") (simp_all add: call_expired call_live committed_fields)
  show "listener (snd (call iv w)) = listener w"
    using assms by (cases "layers w (call_layer iv)") (simp_all add: call_expired call_live committed_fields)
  show "undoStack (snd (call iv w)) = undoStack w"
    using assms by (cases "layers w (call_layer iv)") (simp_all add: call_expired call_live committed_fields)
qed

lemma replay_Cons:
  "replay (iv # ivs) L =
     (fst (replay ivs (fst (replay [iv] L))), snd (replay [iv] L) @ snd (replay ivs (fst (replay [iv] L))))"
  by (simp split: option.splits prod.splits)

lemma replay_append:
  "replay (xs @ ys) L =
     (fst (replay ys (fst (replay xs L))), snd (replay xs L) @ snd (replay ys (fst (replay xs L))))"
proof (induction xs arbitrary: L)
  case Nil then show ?case by simp
next
  case (Cons x xs)
  have "replay ((x # xs) @ ys) L = replay (x # (xs @ ys)) L" by simp
  also have "\<dots> = (fst (replay (xs @ ys) (fst (replay [x] L))),
      snd (replay [x] L) @ snd (replay (xs @ ys) (fst (replay [x] L))))"
    by (rule replay_Cons)
  finally show ?case
    by (simp only: Cons.IH replay_Cons[of x xs] fst_conv snd_conv append_assoc)
qed

lemma fold_call_open:
  assumes "depth w \<ge> 1" "\<not> IsMuted w"
  shows "layers (fold (\<lambda>iv w. snd (call iv w)) ivs w) = fst (replay ivs (layers w))
       \<and> inversion (fold (\<lambda>iv w. snd (call iv w)) ivs w) = inversion w @ snd (replay ivs (layers w))
       \<and> muteDepth (fold (\<lambda>iv w. snd (call iv w)) ivs w) = muteDepth w
       \<and> listener (fold (\<lambda>iv w. snd (call iv w)) ivs w) = listener w
       \<and> undoStack (fold (\<lambda>iv w. snd (call iv w)) ivs w) = undoStack w"
  using assms
proof (induction ivs arbitrary: w)
  case Nil then show ?case by simp
next
  case (Cons iv ivs)
  let ?w1 = "snd (call iv w)"
  have d1: "depth ?w1 \<ge> 1" using Cons.prems by (simp add: call_depth)
  have m1: "\<not> IsMuted ?w1" using Cons.prems call_open(3)[of w iv] by (simp add: IsMuted_def)
  note IH = Cons.IH[OF d1 m1]
  note c = call_open[OF Cons.prems, of iv]
  show ?case
    by (simp only: fold_simps IH c replay_Cons[of iv ivs] fst_conv snd_conv append_assoc)
qed

lemma Unmute_muteDepth: "muteDepth (UndoRouter__Unmute w) = muteDepth w - 1"
  by (simp add: UndoRouter__Unmute_def Let_def)

lemma mute_calls_count:
  "muteDepth (fold do_mute_call cs w) =
     muteDepth w + of_nat (count_list cs CallMute) - of_nat (count_list cs CallUnmute)"
proof (induction cs arbitrary: w)
  case Nil then show ?case by simp
next
  case (Cons c cs) then show ?case
    by (cases c) (simp_all add: Unmute_muteDepth UndoRouter__Mute_def)
qed

text \<open>Inside the range of a 32-bit \<^verbatim>\<open>int\<close> the counter has not wrapped.\<close>
lemma sint_counts:
  fixes x :: "32 word"
  assumes "- (2 ^ 31) \<le> sint x + int m - int n" "sint x + int m - int n < 2 ^ 31"
  shows "sint (x + of_nat m - of_nat n) = sint x + int m - int n"
proof -
  have "x + of_nat m - of_nat n = word_of_int (sint x + int m - int n)"
    by simp
  then have "sint (x + of_nat m - of_nat n) = signed_take_bit 31 (sint x + int m - int n)"
    by (simp only: sint_sbintrunc') simp
  then show ?thesis using assms by (simp add: signed_take_bit_int_eq_self)
qed

text \<open>The decrement reads below zero from every value up to 0, the least one apart: there it
  wraps to the greatest.\<close>
lemma sint_pred_negative:
  fixes x :: "32 word"
  shows "sint (x - 1) < 0 \<longleftrightarrow> sint x \<le> 0 \<and> sint x \<noteq> - (2 ^ 31)"
proof -
  have r: "- (2 ^ 31) \<le> sint x" "sint x < 2 ^ 31"
    using sint_ge[of x] sint_lt[of x] by simp_all
  have e: "sint (x - 1) = signed_take_bit 31 (sint x - 1)"
    by (simp add: sint_word_ariths)
  show ?thesis
  proof (cases "sint x = - (2 ^ 31)")
    case True
    then show ?thesis by (simp add: e signed_take_bit_eq_take_bit_shift take_bit_eq_mod)
  next
    case False
    then have "signed_take_bit 31 (sint x - 1) = sint x - 1"
      using r by (intro signed_take_bit_int_eq_self) simp_all
    then show ?thesis using False by (auto simp add: e)
  qed
qed

text \<open>At the ends of the range the counter wraps: one \<^verbatim>\<open>_Mute\<close> from the greatest value gives
  the least one, and the router is not muted; one \<^verbatim>\<open>_Unmute\<close> from the least value gives the
  greatest one, and nothing is reported.\<close>
lemma Mute_wraps:
  "sint (muteDepth (UndoRouter__Mute ((initial_world NoListener)\<lparr>muteDepth := 2147483647\<rparr>)))
     = - 2147483648
   \<and> \<not> IsMuted (UndoRouter__Mute ((initial_world NoListener)\<lparr>muteDepth := 2147483647\<rparr>))"
  by (simp add: UndoRouter__Mute_def IsMuted_def initial_world_def)

lemma Unmute_wraps:
  "sint (muteDepth (UndoRouter__Unmute ((initial_world NoListener)\<lparr>muteDepth := - 2147483648\<rparr>)))
     = 2147483647
   \<and> diagnostics (UndoRouter__Unmute ((initial_world NoListener)\<lparr>muteDepth := - 2147483648\<rparr>))
     = []"
  by (simp add: UndoRouter__Unmute_def initial_world_def Let_def)


lemma Initialize_fields [simp]:
  "depth (UndoBlock__Initialize w) = depth w + 1"
  "inversion (UndoBlock__Initialize w) = inversion w"
  "muteDepth (UndoBlock__Initialize w) = muteDepth w"
  "notices (UndoBlock__Initialize w) = notices w"
  "listener (UndoBlock__Initialize w) = listener w"
  "undoStack (UndoBlock__Initialize w) = undoStack w"
  "layers (UndoBlock__Initialize w) = layers w"
  "IsMuted (UndoBlock__Initialize w) = IsMuted w"
  by (simp_all add: UndoBlock__Initialize_def Let_def IsMuted_def layers_def fun_eq_iff report_def)

lemma destroy_notices:
  "notices (UndoBlock_destroy w) =
     notices w + (if depth w = 1 \<and> inversion w \<noteq> [] then 1 else 0)"
  by (simp add: UndoBlock_destroy_def UndoStackNotice_Send_def TransferEdits_def Let_def list_defs
      report_def split: listener.splits)

lemma destroy_drained:
  "inversion w = [] \<Longrightarrow> depth w \<ge> 1 \<Longrightarrow> UndoBlock_destroy w = w\<lparr>depth := depth w - 1\<rparr>"
  by (simp add: UndoBlock_destroy_def Let_def list_defs)


lemma sorted_list_of_fset_empty [simp]: "sorted_list_of_fset {||} = []"
  by (simp add: sorted_list_of_fset.rep_eq)

lemma perform_live:
  assumes "layers w (edit_layer e) = Some d"
  shows "perform e w = committed (as_call e) d w"
proof (cases e)
  case (EditSetField l p f v)
  then show ?thesis using assms
    by (simp add: method_defs hook_defs committed_def Let_def
        update_layer_data_const[where g="PrimSetField p f v"])
next
  case (EditSetFieldDictValueByKey l p f k v)
  then show ?thesis using assms
    by (simp add: method_defs hook_defs committed_def Let_def
        update_layer_data_const[where g="PrimSetFieldDictValueByKey p f k v"])
next
  case (EditSetTimeSample l p t v)
  then show ?thesis using assms
    by (simp add: method_defs hook_defs committed_def Let_def
        update_layer_data_const[where g="PrimSetTimeSample p t v"])
next
  case (EditCreateSpec l p ty inert)
  then show ?thesis using assms
    by (simp add: method_defs hook_defs committed_def Let_def
        update_layer_data_const[where g="PrimCreateSpec p ty inert"])
next
  case (EditDeleteSpec l p inert)
  then show ?thesis using assms
    by (simp add: method_defs hook_defs committed_def Let_def
        update_layer_data_const[where g="PrimDeleteSpec p inert"])
next
  case (EditMoveSpec l old new)
  then show ?thesis using assms
    by (simp add: method_defs hook_defs committed_def Let_def
        update_layer_data_const[where g="PrimMoveSpec old new"])
next
  case (EditPushTokenChild l p f v)
  then show ?thesis using assms
    by (simp add: method_defs hook_defs committed_def Let_def
        update_layer_data_const[where g="PrimPushTokenChild p f v"])
next
  case (EditPushPathChild l p f v)
  then show ?thesis using assms
    by (simp add: method_defs hook_defs committed_def Let_def
        update_layer_data_const[where g="PrimPushPathChild p f v"])
next
  case (EditPopTokenChild l p f v)
  then show ?thesis using assms
    by (simp add: method_defs hook_defs committed_def Let_def
        update_layer_data_const[where g="PrimPopTokenChild p f"])
next
  case (EditPopPathChild l p f v)
  then show ?thesis using assms
    by (simp add: method_defs hook_defs committed_def Let_def
        update_layer_data_const[where g="PrimPopPathChild p f"])
qed

lemma perform_expired:
  assumes "layers w (edit_layer e) = None"
  shows "perform e w = w"
  using assms by (cases e) (simp_all add: method_defs)

lemma as_call_layer [simp]: "call_layer (as_call e) = edit_layer e"
  by (cases e) simp_all

lemma as_call_writes [simp]: "call_writes (as_call e) d = edit_writes e d"
  by (cases e) simp_all

lemma perform_open:
  assumes "depth w \<ge> 1" "\<not> IsMuted w"
  shows "layers (perform e w) = fst (replay [as_call e] (layers w))"
    and "inversion (perform e w) = inversion w @ snd (replay [as_call e] (layers w))"
    and "muteDepth (perform e w) = muteDepth w"
    and "listener (perform e w) = listener w"
    and "undoStack (perform e w) = undoStack w"
    and "depth (perform e w) = depth w"
    and "notices (perform e w) = notices w"
    and "diagnostics (perform e w) = diagnostics w"
proof -
  show "layers (perform e w) = fst (replay [as_call e] (layers w))"
    using assms by (cases "layers w (edit_layer e)") (simp_all add: perform_expired perform_live committed_fields)
  show "inversion (perform e w) = inversion w @ snd (replay [as_call e] (layers w))"
    using assms by (cases "layers w (edit_layer e)") (simp_all add: perform_expired perform_live committed_fields)
  show "muteDepth (perform e w) = muteDepth w"
    using assms by (cases "layers w (edit_layer e)") (simp_all add: perform_expired perform_live committed_fields)
  show "listener (perform e w) = listener w"
    using assms by (cases "layers w (edit_layer e)") (simp_all add: perform_expired perform_live committed_fields)
  show "undoStack (perform e w) = undoStack w"
    using assms by (cases "layers w (edit_layer e)") (simp_all add: perform_expired perform_live committed_fields)
  show "depth (perform e w) = depth w"
    using assms by (cases "layers w (edit_layer e)") (simp_all add: perform_expired perform_live committed_fields)
  show "notices (perform e w) = notices w"
    using assms by (cases "layers w (edit_layer e)") (simp_all add: perform_expired perform_live committed_fields)
  show "diagnostics (perform e w) = diagnostics w"
    using assms by (cases "layers w (edit_layer e)") (simp_all add: perform_expired perform_live committed_fields)
qed

lemma fold_perform_open:
  assumes "depth w \<ge> 1" "\<not> IsMuted w"
  shows "layers (fold perform es w) = fst (replay (map as_call es) (layers w))
       \<and> inversion (fold perform es w) = inversion w @ snd (replay (map as_call es) (layers w))
       \<and> muteDepth (fold perform es w) = muteDepth w
       \<and> listener (fold perform es w) = listener w
       \<and> undoStack (fold perform es w) = undoStack w
       \<and> depth (fold perform es w) = depth w
       \<and> notices (fold perform es w) = notices w
       \<and> diagnostics (fold perform es w) = diagnostics w"
  using assms
proof (induction es arbitrary: w)
  case Nil then show ?case by simp
next
  case (Cons e es)
  let ?w1 = "perform e w"
  note c = perform_open[OF Cons.prems, of e]
  have d1: "depth ?w1 \<ge> 1" using Cons.prems c by simp
  have m1: "\<not> IsMuted ?w1" using Cons.prems c by (simp add: IsMuted_def)
  note IH = Cons.IH[OF d1 m1]
  show ?case
    by (simp only: fold_simps list.map IH c replay_Cons[of "as_call e" "map as_call es"]
        fst_conv snd_conv append_assoc)
qed

lemma nested_blocks_noedit:
  "depth w \<ge> 0 \<Longrightarrow> inversion w = [] \<Longrightarrow> nested_blocks n (\<lambda>w. w) w = w"
proof (induction n arbitrary: w)
  case 0 then show ?case by simp
next
  case (Suc n)
  have i: "UndoBlock__Initialize w = w\<lparr>depth := depth w + 1\<rparr>"
    using Suc.prems by (simp add: UndoBlock__Initialize_def Let_def list_defs)
  have "nested_blocks n (\<lambda>w. w) (UndoBlock__Initialize w) = UndoBlock__Initialize w"
    using Suc.prems by (intro Suc.IH) simp_all
  then show ?case using Suc.prems
    by (simp add: i destroy_drained)
qed


section \<open>The claims\<close>

text \<open>
  C10. Adoption appends: \<^verbatim>\<open>TransferEdits\<close> puts the router's pending operations after the
  operations that the transaction already holds, in order, so that the transaction holds
  as many operations as both lists together; the router's pending list is empty afterwards
  and the result is \<^verbatim>\<open>true\<close>, always.
\<close>
theorem TransferEdits_appends:
  "TransferEdits t w = (True, t @ inversion w, w\<lparr>inversion := []\<rparr>)
   \<and> length (fst (snd (TransferEdits t w))) = length t + length (inversion w)
   \<and> inversion (snd (snd (TransferEdits t w))) = []"
  by (simp add: TransferEdits_def list_defs)


text \<open>
  C8. A block constructed while the depth is 0 and the pending list is not empty reports
  the fragmented-block error, leaves the pending list as it is and sets the depth to 1.
  A block constructed at a depth above 0 reports nothing, and increments the depth.
\<close>
theorem Initialize_reports_fragmented:
  "(depth w = 0 \<and> inversion w \<noteq> [] \<longrightarrow>
      diagnostics (UndoBlock__Initialize w) = diagnostics w @ [CodingError fragmented_msg]
      \<and> inversion (UndoBlock__Initialize w) = inversion w
      \<and> depth (UndoBlock__Initialize w) = 1)
   \<and> (depth w > 0 \<longrightarrow>
      diagnostics (UndoBlock__Initialize w) = diagnostics w
      \<and> inversion (UndoBlock__Initialize w) = inversion w
      \<and> depth (UndoBlock__Initialize w) = depth w + 1)"
  by (simp add: UndoBlock__Initialize_def Let_def list_defs)


theorem Initialize_reports_fragmented_witness:
  "(depth ((initial_world NoListener)\<lparr>inversion := [BindInvertCreateSpec 0 [''World''] False]\<rparr>) = 0
    \<and> inversion ((initial_world NoListener)\<lparr>inversion := [BindInvertCreateSpec 0 [''World''] False]\<rparr>) \<noteq> []
    \<and> diagnostics (UndoBlock__Initialize
          ((initial_world NoListener)\<lparr>inversion := [BindInvertCreateSpec 0 [''World''] False]\<rparr>)) =
        [CodingError fragmented_msg]
    \<and> depth (UndoBlock__Initialize
          ((initial_world NoListener)\<lparr>inversion := [BindInvertCreateSpec 0 [''World''] False]\<rparr>)) = 1)
   \<and> (depth ((initial_world NoListener)\<lparr>depth := 2\<rparr>) > 0
    \<and> diagnostics (UndoBlock__Initialize ((initial_world NoListener)\<lparr>depth := 2\<rparr>)) = []
    \<and> depth (UndoBlock__Initialize ((initial_world NoListener)\<lparr>depth := 2\<rparr>)) = 3)"
  using Initialize_reports_fragmented
          [of "(initial_world NoListener)\<lparr>inversion := [BindInvertCreateSpec 0 [''World''] False]\<rparr>"]
        Initialize_reports_fragmented [of "(initial_world NoListener)\<lparr>depth := 2\<rparr>"]
  by (simp add: initial_world_def)






text \<open>
  C9. \<^verbatim>\<open>Invert()\<close> called while the depth is 0 sends no notice, whatever the transaction
  holds: the pending list has been moved into the transaction when the block of
  \<^verbatim>\<open>Invert()\<close> closes, so the depth is 0 again and the pending list is empty.
\<close>
theorem Invert_sends_no_notice:
  assumes "depth w = 0"
  shows "notices (snd (UndoInverse_Invert t w)) = notices w
       \<and> inversion (snd (UndoInverse_Invert t w)) = []
       \<and> depth (snd (UndoInverse_Invert t w)) = 0"
proof -
  let ?w2 = "UndoBlock__Initialize w"
  let ?w3 = "UndoInverse__Invert t ?w2"
  let ?w4 = "?w3\<lparr>inversion := []\<rparr>"
  have d3: "depth ?w3 = 1" using assms by (simp add: Invert_fold fold_call_depth)
  have n3: "notices ?w3 = notices w" using assms by (simp add: Invert_fold fold_call_notices_open)
  have r: "snd (UndoInverse_Invert t w) = UndoBlock_destroy ?w4"
    using assms by (simp add: UndoInverse_Invert_def Let_def list_defs)
  have "UndoBlock_destroy ?w4 = ?w4\<lparr>depth := depth ?w4 - 1\<rparr>"
    using d3 by (intro destroy_drained) simp_all
  with r d3 n3 show ?thesis by simp
qed

theorem Invert_sends_no_notice_witness:
  "depth example_world = 0
   \<and> notices (snd (UndoInverse_Invert
        [BindInvertSetField 0 [''World''] ''size'' (Some (VtInt 9))] example_world)) = 0
   \<and> inversion (snd (UndoInverse_Invert
        [BindInvertSetField 0 [''World''] ''size'' (Some (VtInt 9))] example_world)) = []"
proof -
  have h: "depth example_world = 0"
    by (simp add: example_defs)
  have n: "notices example_world = 0"
    by (simp add: example_defs)
  show ?thesis
    using h n Invert_sends_no_notice
      [OF h, of "[BindInvertSetField 0 [''World''] ''size'' (Some (VtInt 9))]"]
    by simp
qed

text \<open>
  C4. Closing a block sends one notice when it is the outermost block (the depth goes from
  1 to 0) and the pending list is not empty, and sends none otherwise.  Blocks nested
  \<open>n\<close> deep around no edit, opened on an idle router, send no notice.  One block
  around one field write on a layer that is alive sends exactly one notice, and a listener
  that adopts the edits gets a transaction of exactly one operation.
\<close>
theorem notice_once_per_outermost_close:
  "notices (UndoBlock_destroy w) =
     notices w + (if depth w = 1 \<and> inversion w \<noteq> [] then 1 else 0)
   \<and> (depth w = 0 \<and> inversion w = [] \<longrightarrow>
        notices (nested_blocks n (\<lambda>w. w) w) = notices w)
   \<and> (depth w = 0 \<and> inversion w = [] \<and> \<not> IsMuted w \<and> layers w l = Some d \<longrightarrow>
        notices (UndoBlock_batch [EditSetField l p f v] w) = notices w + 1
        \<and> (listener w = AdoptingListener \<longrightarrow>
             undoStack (UndoBlock_batch [EditSetField l p f v] w) =
               [BindInvertSetField l p f (GetField d p f)] # undoStack w))"
proof (intro conjI impI)
  show "notices (UndoBlock_destroy w) =
     notices w + (if depth w = 1 \<and> inversion w \<noteq> [] then 1 else 0)"
    by (rule destroy_notices)
next
  assume "depth w = 0 \<and> inversion w = []"
  then show "notices (nested_blocks n (\<lambda>w. w) w) = notices w"
    by (simp add: nested_blocks_noedit)
next
  assume a: "depth w = 0 \<and> inversion w = [] \<and> \<not> IsMuted w \<and> layers w l = Some d"
  let ?e = "EditSetField l p f v"
  let ?w1 = "UndoBlock__Initialize w"
  have o: "depth ?w1 \<ge> 1" "\<not> IsMuted ?w1" using a by simp_all
  note c = perform_open[OF o, of ?e]
  have inv: "inversion (SetField l p f v ?w1) = [BindInvertSetField l p f (GetField d p f)]"
    using a c(2) by simp
  have dep: "depth (SetField l p f v ?w1) = 1" using a c(6) by simp
  have nt: "notices (SetField l p f v ?w1) = notices w" using c(7) by simp
  show "notices (UndoBlock_batch [EditSetField l p f v] w) = notices w + 1"
    by (simp add: UndoBlock_batch_def destroy_notices inv dep nt)
  assume h: "listener w = AdoptingListener"
  have "listener (SetField l p f v ?w1) = AdoptingListener" using c(4) h by simp
  moreover have "undoStack (SetField l p f v ?w1) = undoStack w" using c(5) by simp
  ultimately show "undoStack (UndoBlock_batch [EditSetField l p f v] w) =
      [BindInvertSetField l p f (GetField d p f)] # undoStack w"
    using inv dep
    by (simp add: UndoBlock_batch_def UndoBlock_destroy_def UndoStackNotice_Send_def
        TransferEdits_def Let_def list_defs)
qed


theorem notice_once_per_outermost_close_witness:
  "depth example_world = 0 \<and> inversion example_world = [] \<and> \<not> IsMuted example_world
   \<and> layers example_world 0 = Some example_data
   \<and> listener example_world = AdoptingListener
   \<and> notices (nested_blocks 3 (\<lambda>w. w) example_world) = 0
   \<and> notices (UndoBlock_batch [EditSetField 0 [''World''] ''size'' (Some (VtInt 9))]
        example_world) = 1
   \<and> undoStack (UndoBlock_batch [EditSetField 0 [''World''] ''size'' (Some (VtInt 9))]
        example_world) =
       [[BindInvertSetField 0 [''World''] ''size'' (GetField example_data [''World''] ''size'')]]"
proof -
  have h: "depth example_world = 0" "inversion example_world = []" "\<not> IsMuted example_world"
    "layers example_world 0 = Some example_data" "listener example_world = AdoptingListener"
    "notices example_world = 0" "undoStack example_world = []"
    by (simp_all add: example_defs IsMuted_def layers_def)
  show ?thesis
    using h notice_once_per_outermost_close
      [of example_world 3 0 example_data "[''World'']" "''size''" "Some (VtInt 9)"]
    by simp
qed

text \<open>
  C2. \<^verbatim>\<open>_Invert\<close> calls the operations that the transaction holds in the reverse of the order
  in which they were recorded.  After \<^verbatim>\<open>Invert()\<close> on an idle router the transaction holds
  the operations that the hooks bound during the replay, in the order of the calls, and
  none of the operations it held before; the router's pending list is empty.
\<close>
theorem Invert_replays_in_reverse:
  "UndoInverse__Invert t w = fold (\<lambda>iv w. snd (call iv w)) (rev t) w
   \<and> (depth w = 0 \<and> inversion w = [] \<and> \<not> IsMuted w \<longrightarrow>
        fst (UndoInverse_Invert t w) = snd (replay (rev t) (layers w))
        \<and> layers (snd (UndoInverse_Invert t w)) = fst (replay (rev t) (layers w))
        \<and> inversion (snd (UndoInverse_Invert t w)) = [])"
proof (intro conjI impI)
  show "UndoInverse__Invert t w = fold (\<lambda>iv w. snd (call iv w)) (rev t) w"
    by (rule Invert_fold)
next
  assume a: "depth w = 0 \<and> inversion w = [] \<and> \<not> IsMuted w"
  let ?w2 = "UndoBlock__Initialize w"
  let ?w3 = "UndoInverse__Invert t ?w2"
  let ?w4 = "?w3\<lparr>inversion := []\<rparr>"
  have o: "depth ?w2 \<ge> 1" "\<not> IsMuted ?w2" using a by simp_all
  note f = fold_call_open[OF o, of "rev t", folded Invert_fold]
  have d3: "depth ?w3 = 1" using a by (simp add: Invert_fold fold_call_depth)
  have r: "UndoInverse_Invert t w = (inversion ?w3, UndoBlock_destroy ?w4)"
    using a by (simp add: UndoInverse_Invert_def Let_def list_defs)
  have dd: "UndoBlock_destroy ?w4 = ?w4\<lparr>depth := depth ?w4 - 1\<rparr>"
    using d3 by (intro destroy_drained) simp_all
  show "fst (UndoInverse_Invert t w) = snd (replay (rev t) (layers w))"
    using a f by (simp add: r)
  show "layers (snd (UndoInverse_Invert t w)) = fst (replay (rev t) (layers w))"
    using f by (simp add: r dd layers_def fun_eq_iff)
  show "inversion (snd (UndoInverse_Invert t w)) = []"
    by (simp add: r dd)
qed


theorem Invert_replays_in_reverse_witness:
  "depth example_world = 0 \<and> inversion example_world = [] \<and> \<not> IsMuted example_world
   \<and> fst (UndoInverse_Invert
        [BindInvertSetField 0 [''World''] ''size'' (Some (VtInt 9)),
         BindInvertSetField 0 [''World''] ''size'' (Some (VtInt 7))] example_world) =
       [BindInvertSetField 0 [''World''] ''size'' (Some (VtInt 5)),
        BindInvertSetField 0 [''World''] ''size'' (Some (VtInt 7))]"
proof -
  have h: "depth example_world = 0 \<and> inversion example_world = [] \<and> \<not> IsMuted example_world"
    by (simp add: example_defs IsMuted_def)
  have l: "layers example_world = (\<lambda>_. None)(0 \<mapsto> example_data)"
    by (simp add: example_defs layers_def fun_eq_iff)
  have e: "snd (replay
        (rev [BindInvertSetField 0 [''World''] ''size'' (Some (VtInt 9)),
              BindInvertSetField 0 [''World''] ''size'' (Some (VtInt 7))])
        ((\<lambda>_. None)(0 \<mapsto> example_data))) =
       [BindInvertSetField 0 [''World''] ''size'' (Some (VtInt 5)),
        BindInvertSetField 0 [''World''] ''size'' (Some (VtInt 7))]"
    by code_simp
  show ?thesis
    using h l e Invert_replays_in_reverse
      [of "[BindInvertSetField 0 [''World''] ''size'' (Some (VtInt 9)),
            BindInvertSetField 0 [''World''] ''size'' (Some (VtInt 7))]" example_world]
    by simp
qed


section \<open>Lemmas: the store\<close>

lemma set_subtree: "set (subtree d p) = {q. q |\<in>| fmdom d \<and> prefix p q}"
  by (auto simp: subtree_def sorted_list_of_fset_simps)

lemma distinct_sorted_list_of_fset [simp]: "distinct (sorted_list_of_fset S)"
  by (simp add: sorted_list_of_fset.rep_eq)

lemma distinct_subtree: "distinct (subtree d p)"
  by (simp add: subtree_def)

lemma subtree_empty_iff: "subtree d p = [] \<longleftrightarrow> (\<forall>q. prefix p q \<longrightarrow> fmlookup d q = None)"
proof -
  have "subtree d p = [] \<longleftrightarrow> set (subtree d p) = {}" by simp
  also have "\<dots> \<longleftrightarrow> (\<forall>q. prefix p q \<longrightarrow> fmlookup d q = None)"
    by (auto simp: set_subtree fmdom_notI dest: fmdom_notD)
  finally show ?thesis .
qed

lemma fold_EraseSpec:
  "fmlookup (fold EraseSpec qs d) q = (if q \<in> set qs then None else fmlookup d q)"
  by (induction qs arbitrary: d) (auto simp: EraseSpec_def)

lemma PrimDeleteSpec_eq: "PrimDeleteSpec p inert d = fmfilter (\<lambda>q. \<not> prefix p q) d"
proof (rule fmap_ext)
  fix q
  show "fmlookup (PrimDeleteSpec p inert d) q = fmlookup (fmfilter (\<lambda>q. \<not> prefix p q) d) q"
    by (auto simp: PrimDeleteSpec_def fold_EraseSpec set_subtree fmdom_notD)
qed

lemma spec_data_eta [simp]: "\<lparr>specType = specType sp, specFields = specFields sp\<rparr> = sp"
  by (cases sp) simp

lemma fmadd_upd_restrict:
  "fmlookup F i = Some x \<Longrightarrow>
   fmupd i x A ++\<^sub>f fmrestrict_set S F = A ++\<^sub>f fmrestrict_set (insert i S) F"
  by (rule fmap_ext) (auto simp: fmlookup_dom_iff)

lemma spec_data_updates [simp]:
  "a\<lparr>specType := t, specFields := g\<rparr> = \<lparr>specType = t, specFields = g\<rparr>"
  by (cases a) simp

lemma fold_Set_field:
  assumes "fmlookup src q = Some sp"
  shows "fmlookup acc q = Some a \<Longrightarrow> \<forall>i\<in>set fs. fmlookup (specFields sp) i \<noteq> None \<Longrightarrow>
     fold (\<lambda>i acc. Set_field q i (GetField src q i) acc) fs acc =
       fmupd q (a\<lparr>specFields := specFields a ++\<^sub>f fmrestrict_set (set fs) (specFields sp)\<rparr>) acc"
proof (induction fs arbitrary: acc a)
  case Nil
  then show ?case by (auto intro!: fmap_ext)
next
  case (Cons i fs)
  from Cons.prems obtain x where x: "fmlookup (specFields sp) i = Some x" by auto
  let ?a' = "a\<lparr>specFields := fmupd i x (specFields a)\<rparr>"
  let ?acc' = "fmupd q ?a' acc"
  have s: "Set_field q i (GetField src q i) acc = ?acc'"
    using assms x Cons.prems(1) by (simp add: Set_field_def GetField_def)
  have "fold (\<lambda>i acc. Set_field q i (GetField src q i) acc) fs ?acc' =
      fmupd q (?a'\<lparr>specFields := specFields ?a' ++\<^sub>f fmrestrict_set (set fs) (specFields sp)\<rparr>) ?acc'"
    using Cons.prems by (intro Cons.IH) simp_all
  then show ?case
    by (simp add: s fmadd_upd_restrict[OF x])
qed

lemma CopySpec_absent: "fmlookup src q = None \<Longrightarrow> CopySpec src dst q = dst"
  by (simp add: CopySpec_def GetSpecType_def CreateSpec_data_def List_fields_def)

lemma CopySpec_present:
  assumes "fmlookup src q = Some sp"
  shows "CopySpec src dst q =
     fmupd q \<lparr>specType = specType sp,
              specFields = (case fmlookup dst q of None \<Rightarrow> fmempty | Some a \<Rightarrow> specFields a)
                             ++\<^sub>f specFields sp\<rparr> dst"
proof -
  let ?fs = "sorted_list_of_fset (fmdom (specFields sp))"
  let ?a0 = "case fmlookup dst q of
               None \<Rightarrow> \<lparr>specType = specType sp, specFields = fmempty\<rparr>
             | Some a \<Rightarrow> a\<lparr>specType := specType sp\<rparr>"
  let ?dst1 = "fmupd q ?a0 dst"
  have c: "CreateSpec_data q (GetSpecType src q) dst = ?dst1"
    using assms by (simp add: CreateSpec_data_def GetSpecType_def split: option.splits)
  have all: "\<forall>i\<in>set ?fs. fmlookup (specFields sp) i \<noteq> None"
    by (auto simp: sorted_list_of_fset_simps dest: fmdom_notI)
  have r: "fmrestrict_set (fset (fmdom (specFields sp))) (specFields sp) = specFields sp"
    by (rule fmap_ext) (auto dest: fmdom_notI)
  have "fold (\<lambda>i acc. Set_field q i (GetField src q i) acc) ?fs ?dst1 =
      fmupd q (?a0\<lparr>specFields := specFields ?a0 ++\<^sub>f fmrestrict_set (set ?fs) (specFields sp)\<rparr>) ?dst1"
    using all by (intro fold_Set_field[OF assms]) simp_all
  then show ?thesis using assms
    by (cases "fmlookup dst q") (auto simp: CopySpec_def c List_fields_def r)
qed

lemma CopySpec_other: "r \<noteq> q \<Longrightarrow> fmlookup (CopySpec src dst q) r = fmlookup dst r"
  by (cases "fmlookup src q") (simp_all add: CopySpec_absent CopySpec_present)

lemma fold_CopySpec_lookup:
  "distinct qs \<Longrightarrow>
   fmlookup (fold (\<lambda>q acc. CopySpec src acc q) qs dst) r =
     (if r \<in> set qs
      then (case fmlookup src r of
              None \<Rightarrow> fmlookup dst r
            | Some sp \<Rightarrow>
                Some \<lparr>specType = specType sp,
                      specFields = (case fmlookup dst r of None \<Rightarrow> fmempty | Some a \<Rightarrow> specFields a)
                                     ++\<^sub>f specFields sp\<rparr>)
      else fmlookup dst r)"
proof (induction qs arbitrary: dst)
  case Nil then show ?case by simp
next
  case (Cons q qs)
  show ?case
  proof (cases "r = q")
    case True
    then have n: "r \<notin> set qs" and d: "distinct qs" using Cons.prems by simp_all
    have "fmlookup (fold (\<lambda>q acc. CopySpec src acc q) (q # qs) dst) r =
        fmlookup (CopySpec src dst q) r"
      using n by (simp add: Cons.IH[OF d])
    then show ?thesis using True
      by (cases "fmlookup src q") (simp_all add: CopySpec_absent CopySpec_present)
  next
    case False
    moreover have d: "distinct qs" using Cons.prems by simp
    ultimately show ?thesis
      by (simp add: Cons.IH[OF d] CopySpec_other cong: option.case_cong)
  qed
qed

lemma snapshot_eq:
  "fold (\<lambda>q acc. CopySpecAtPath d acc q) (subtree d p) fmempty = fmfilter (prefix p) d"
proof (rule fmap_ext)
  fix r
  have "fold (\<lambda>q acc. CopySpecAtPath d acc q) (subtree d p) fmempty =
        fold (\<lambda>q acc. CopySpec d acc q) (subtree d p) fmempty"
    by (simp add: CopySpecAtPath_def)
  then show "fmlookup (fold (\<lambda>q acc. CopySpecAtPath d acc q) (subtree d p) fmempty) r =
        fmlookup (fmfilter (prefix p) d) r"
    by (auto simp: fold_CopySpec_lookup distinct_subtree set_subtree fmdom_notD
        split: option.splits dest: fmdom_notI)
qed

lemma restore_eq:
  "fold (\<lambda>specId acc. CopySpec (fmfilter (prefix p) d) acc specId)
     (sorted_list_of_fset (fmdom (fmfilter (prefix p) d)))
     (PrimCreateSpec p (GetSpecType d p) inert (fmfilter (\<lambda>q. \<not> prefix p q) d)) = d"
proof (rule fmap_ext)
  fix r
  let ?snap = "fmfilter (prefix p) d"
  let ?d' = "fmfilter (\<lambda>q. \<not> prefix p q) d"
  let ?dst = "PrimCreateSpec p (GetSpecType d p) inert ?d'"
  have dst: "fmlookup ?dst r =
      (if r = p then map_option (\<lambda>sp. \<lparr>specType = specType sp, specFields = fmempty\<rparr>) (fmlookup d p)
       else fmlookup ?d' r)"
    by (auto simp: PrimCreateSpec_def CreateSpec_data_def GetSpecType_def split: option.splits)
  have keys: "r \<in> set (sorted_list_of_fset (fmdom ?snap)) \<longleftrightarrow> prefix p r \<and> fmlookup d r \<noteq> None"
    by (auto simp: fmlookup_dom_iff)
  show "fmlookup (fold (\<lambda>specId acc. CopySpec ?snap acc specId)
          (sorted_list_of_fset (fmdom ?snap)) ?dst) r = fmlookup d r"
    unfolding fold_CopySpec_lookup[OF distinct_sorted_list_of_fset] keys dst
    by (auto split: option.splits)
qed

lemma Route_diagnostics_prefix:
  "prefix (diagnostics w) (diagnostics (UndoStateDelegate__RouteInverse iv w))"
  by (auto simp: UndoStateDelegate__RouteInverse_def UndoRouter__AddInverse_def
      UndoBlock__Initialize_def UndoBlock_destroy_def UndoStackNotice_Send_def TransferEdits_def
      report_def Let_def split: listener.splits)

lemma call_diagnostics_prefix: "prefix (diagnostics w) (diagnostics (snd (call iv w)))"
proof (cases "layers w (call_layer iv)")
  case None then show ?thesis by (simp add: call_expired)
next
  case (Some d)
  have "prefix (diagnostics (UndoStateDelegate__MarkCurrentStateAsDirty (call_layer iv) w))
     (diagnostics (UndoStateDelegate__RouteInverse (call_binds iv d)
        (UndoStateDelegate__MarkCurrentStateAsDirty (call_layer iv) w)))"
    by (rule Route_diagnostics_prefix)
  then show ?thesis using Some by (simp add: call_live committed_def)
qed

lemma fold_call_diagnostics_prefix:
  "prefix (diagnostics w) (diagnostics (fold (\<lambda>iv w. snd (call iv w)) ivs w))"
proof (induction ivs arbitrary: w)
  case Nil then show ?case by simp
next
  case (Cons iv ivs)
  have "prefix (diagnostics w) (diagnostics (snd (call iv w)))" by (rule call_diagnostics_prefix)
  also have "prefix (diagnostics (snd (call iv w)))
      (diagnostics (fold (\<lambda>iv w. snd (call iv w)) ivs (snd (call iv w))))" by (rule Cons.IH)
  finally show ?case by simp
qed

lemma call_fails_iff: "\<not> fst (call iv w) \<longleftrightarrow> layers w (call_layer iv) = None"
  by (cases "layers w (call_layer iv)") (simp_all add: call_expired call_live)


lemma CreateSpec_live:
  "layers w l = Some d \<Longrightarrow>
   CreateSpec l p ty inert w = committed (as_call (EditCreateSpec l p ty inert)) d w"
  using perform_live[of w "EditCreateSpec l p ty inert" d] by simp

lemma DeleteSpec_live:
  "layers w l = Some d \<Longrightarrow>
   DeleteSpec l p inert w = committed (as_call (EditDeleteSpec l p inert)) d w"
  using perform_live[of w "EditDeleteSpec l p inert" d] by simp


lemma destroy_diagnostics_prefix: "prefix (diagnostics w) (diagnostics (UndoBlock_destroy w))"
  by (auto simp: UndoBlock_destroy_def UndoStackNotice_Send_def TransferEdits_def
      report_def Let_def split: listener.splits)

lemma Invert_diagnostics_prefix:
  assumes "depth w0 = 0"
  shows "prefix (diagnostics (UndoInverse__Invert t (UndoBlock__Initialize w0)))
           (diagnostics (snd (UndoInverse_Invert t w0)))"
proof -
  let ?w3 = "UndoInverse__Invert t (UndoBlock__Initialize w0)"
  have "snd (UndoInverse_Invert t w0) = UndoBlock_destroy (?w3\<lparr>inversion := []\<rparr>)"
    using assms by (simp add: UndoInverse_Invert_def Let_def list_defs)
  moreover have "prefix (diagnostics (?w3\<lparr>inversion := []\<rparr>))
      (diagnostics (UndoBlock_destroy (?w3\<lparr>inversion := []\<rparr>)))"
    by (rule destroy_diagnostics_prefix)
  ultimately show ?thesis by simp
qed

section \<open>The claims on capture and replay\<close>

text \<open>
  C6. When the call of an operation returns \<^verbatim>\<open>false\<close> during the replay, the operations
  recorded before it are still called, in reverse order, on the world that the failed call
  leaves; and the failure is not silent: the failed call has posted a coding error to the
  diagnostic channel, which is still there when the replay ends and when \<^verbatim>\<open>Invert()\<close>
  returns.  (\<^verbatim>\<open>_Invert\<close> itself drops the value that the call returns, and \<^verbatim>\<open>Invert()\<close>
  returns nothing.)
\<close>
theorem Invert_continues_after_failure:
  assumes "\<not> fst (call iv (UndoInverse__Invert ys w))"
  shows "UndoInverse__Invert (xs @ iv # ys) w =
           UndoInverse__Invert xs (snd (call iv (UndoInverse__Invert ys w)))
       \<and> diagnostics (snd (call iv (UndoInverse__Invert ys w))) =
           diagnostics (UndoInverse__Invert ys w) @ [CodingError (expired_msg iv)]
       \<and> prefix (diagnostics (UndoInverse__Invert ys w) @ [CodingError (expired_msg iv)])
           (diagnostics (UndoInverse__Invert (xs @ iv # ys) w))
       \<and> (\<forall>w0. depth w0 = 0 \<and> w = UndoBlock__Initialize w0 \<longrightarrow>
             prefix (diagnostics (UndoInverse__Invert ys w) @ [CodingError (expired_msg iv)])
               (diagnostics (snd (UndoInverse_Invert (xs @ iv # ys) w0))))"
proof -
  let ?w' = "UndoInverse__Invert ys w"
  have e: "layers ?w' (call_layer iv) = None" using assms by (simp add: call_fails_iff)
  have 1: "UndoInverse__Invert (xs @ iv # ys) w = UndoInverse__Invert xs (snd (call iv ?w'))"
    by (simp add: Invert_fold)
  have 2: "diagnostics (snd (call iv ?w')) = diagnostics ?w' @ [CodingError (expired_msg iv)]"
    using e by (simp add: call_expired)
  have "prefix (diagnostics (snd (call iv ?w')))
      (diagnostics (UndoInverse__Invert xs (snd (call iv ?w'))))"
    unfolding Invert_fold by (rule fold_call_diagnostics_prefix)
  then have 3: "prefix (diagnostics ?w' @ [CodingError (expired_msg iv)])
      (diagnostics (UndoInverse__Invert (xs @ iv # ys) w))"
    using 1 2 by simp
  have 4: "\<forall>w0. depth w0 = 0 \<and> w = UndoBlock__Initialize w0 \<longrightarrow>
             prefix (diagnostics ?w' @ [CodingError (expired_msg iv)])
               (diagnostics (snd (UndoInverse_Invert (xs @ iv # ys) w0)))"
  proof (intro allI impI)
    fix w0 assume a: "depth w0 = 0 \<and> w = UndoBlock__Initialize w0"
    have "prefix (diagnostics (UndoInverse__Invert (xs @ iv # ys) w))
        (diagnostics (snd (UndoInverse_Invert (xs @ iv # ys) w0)))"
      using a Invert_diagnostics_prefix[of w0 "xs @ iv # ys"] by simp
    with 3 show "prefix (diagnostics ?w' @ [CodingError (expired_msg iv)])
        (diagnostics (snd (UndoInverse_Invert (xs @ iv # ys) w0)))"
      by (rule prefix_order.trans)
  qed
  show ?thesis using 1 2 3 4 by blast
qed

theorem Invert_continues_after_failure_witness:
  "\<not> fst (call (BindInvertSetField 1 [''Other''] ''size'' None)
        (UndoInverse__Invert [BindInvertSetField 0 [''World''] ''size'' (Some (VtInt 2))]
           (UndoBlock__Initialize example_world)))
   \<and> UndoInverse__Invert
        ([BindInvertSetField 0 [''World''] ''size'' (Some (VtInt 1))]
         @ BindInvertSetField 1 [''Other''] ''size'' None
         # [BindInvertSetField 0 [''World''] ''size'' (Some (VtInt 2))])
        (UndoBlock__Initialize example_world) =
       UndoInverse__Invert [BindInvertSetField 0 [''World''] ''size'' (Some (VtInt 1))]
        (snd (call (BindInvertSetField 1 [''Other''] ''size'' None)
           (UndoInverse__Invert [BindInvertSetField 0 [''World''] ''size'' (Some (VtInt 2))]
              (UndoBlock__Initialize example_world))))
   \<and> CodingError ''Cannot invert field for expired layer.''
       \<in> set (diagnostics (snd (UndoInverse_Invert
            ([BindInvertSetField 0 [''World''] ''size'' (Some (VtInt 1))]
             @ BindInvertSetField 1 [''Other''] ''size'' None
             # [BindInvertSetField 0 [''World''] ''size'' (Some (VtInt 2))])
            example_world)))"
proof -
  let ?w = "UndoBlock__Initialize example_world"
  let ?ys = "[BindInvertSetField 0 [''World''] ''size'' (Some (VtInt 2))]"
  let ?iv = "BindInvertSetField 1 [''Other''] ''size'' None"
  have o: "depth ?w \<ge> 1" "\<not> IsMuted ?w"
    by (simp_all add: example_defs IsMuted_def)
  have z: "depth example_world = 0" by (simp add: example_defs)
  have l: "layers example_world = (\<lambda>_. None)(0 \<mapsto> example_data)"
    by (simp add: example_defs layers_def fun_eq_iff)
  have "layers (UndoInverse__Invert ?ys ?w) 1 = None"
    using fold_call_open[OF o, of "rev ?ys"] by (simp add: Invert_fold l)
  then have h: "\<not> fst (call ?iv (UndoInverse__Invert ?ys ?w))"
    by (simp add: call_fails_iff)
  from Invert_continues_after_failure [OF h, of "[BindInvertSetField 0 [''World''] ''size'' (Some (VtInt 1))]"]
  show ?thesis using h z by (auto simp: prefix_def)
qed

text \<open>
  C7, as the code has it. The closure that the hook of a spec creation routes carries the
  path and the inert flag of the call, and neither the spec type nor a snapshot; inside a
  block, on a router that is not muted, it is appended to the pending list.  Called on a
  layer that is alive, it returns \<^verbatim>\<open>true\<close> and deletes the spec at the path and the specs
  below it.
\<close>
theorem CreateSpec_inverse_deletes:
  "UndoStateDelegate__OnCreateSpec l p ty inert w =
     UndoStateDelegate__RouteInverse (BindInvertCreateSpec l p inert)
       (UndoStateDelegate__MarkCurrentStateAsDirty l w)
   \<and> (depth w \<ge> 1 \<and> \<not> IsMuted w \<and> layers w l = Some d \<longrightarrow>
        inversion (CreateSpec l p ty inert w) = inversion w @ [BindInvertCreateSpec l p inert])
   \<and> (layers w l = Some d \<longrightarrow>
        fst (call (BindInvertCreateSpec l p inert) w)
        \<and> layers (snd (call (BindInvertCreateSpec l p inert) w)) l =
            Some (fmfilter (\<lambda>q. \<not> prefix p q) d)
        \<and> GetSpecType (fmfilter (\<lambda>q. \<not> prefix p q) d) p = None)"
proof (intro conjI impI)
  show "UndoStateDelegate__OnCreateSpec l p ty inert w =
     UndoStateDelegate__RouteInverse (BindInvertCreateSpec l p inert)
       (UndoStateDelegate__MarkCurrentStateAsDirty l w)"
    by (simp add: UndoStateDelegate__OnCreateSpec_def)
next
  assume "depth w \<ge> 1 \<and> \<not> IsMuted w \<and> layers w l = Some d"
  then show "inversion (CreateSpec l p ty inert w) = inversion w @ [BindInvertCreateSpec l p inert]"
    by (simp add: CreateSpec_live committed_fields)
next
  assume a: "layers w l = Some d"
  have c: "call (BindInvertCreateSpec l p inert) w =
      (True, committed (BindInvertCreateSpec l p inert) d w)"
    by (rule call_live) (simp add: a)
  show "fst (call (BindInvertCreateSpec l p inert) w)" by (simp add: c)
  show "layers (snd (call (BindInvertCreateSpec l p inert) w)) l =
      Some (fmfilter (\<lambda>q. \<not> prefix p q) d)"
    using a by (simp add: c committed_fields PrimDeleteSpec_eq)
  show "GetSpecType (fmfilter (\<lambda>q. \<not> prefix p q) d) p = None"
    by (simp add: GetSpecType_def)
qed


theorem CreateSpec_inverse_deletes_witness:
  "depth (UndoBlock__Initialize example_world) \<ge> 1
   \<and> \<not> IsMuted (UndoBlock__Initialize example_world)
   \<and> layers (UndoBlock__Initialize example_world) 0 = Some example_data
   \<and> inversion (CreateSpec 0 [''World'', ''child''] (Some SdfSpecTypePrim) False
        (UndoBlock__Initialize example_world)) = [BindInvertCreateSpec 0 [''World'', ''child''] False]
   \<and> fst (call (BindInvertCreateSpec 0 [''World'', ''child''] False)
        (UndoBlock__Initialize example_world))"
proof -
  have h: "depth (UndoBlock__Initialize example_world) \<ge> 1
      \<and> \<not> IsMuted (UndoBlock__Initialize example_world)
      \<and> layers (UndoBlock__Initialize example_world) 0 = Some example_data"
    by (simp add: example_defs IsMuted_def layers_def)
  have i: "inversion example_world = []"
    by (simp add: example_defs)
  show ?thesis
    using h i CreateSpec_inverse_deletes
      [of 0 "[''World'', ''child'']" "Some SdfSpecTypePrim" False
          "UndoBlock__Initialize example_world" example_data]
    by simp
qed

text \<open>C7 as stated fails: the creation of a prim spec and the creation of an attribute spec
  at the same path route the same closure, which holds the path and the inert flag only.\<close>
theorem OnCreateSpec_drops_specType:
  "UndoStateDelegate__OnCreateSpec 0 [''World'', ''child''] (Some SdfSpecTypePrim) False example_world =
   UndoStateDelegate__OnCreateSpec 0 [''World'', ''child''] (Some SdfSpecTypeAttribute) False example_world
   \<and> undoStack (UndoStateDelegate__OnCreateSpec 0 [''World'', ''child''] (Some SdfSpecTypePrim) False
        example_world) = [[BindInvertCreateSpec 0 [''World'', ''child''] False]]"
  by (simp add: UndoStateDelegate__OnCreateSpec_def UndoStateDelegate__RouteInverse_def
      UndoRouter__AddInverse_def UndoBlock__Initialize_def UndoBlock_destroy_def
      UndoStackNotice_Send_def TransferEdits_def UndoStateDelegate__MarkCurrentStateAsDirty_def
      IsMuted_def list_defs Let_def example_defs)


text \<open>
  C3. The hook of a spec deletion routes a closure that holds the type of the spec at the
  path and a snapshot of the layer as it is before the deletion is written: every spec at
  or below the path, with its type and all its fields.  The deletion then removes these
  specs from the layer.  Calling the closure on the layer after the deletion returns
  \<^verbatim>\<open>true\<close> and gives back the layer as it was: the spec with its type, and every field
  of every spec of the snapshot with its value.
\<close>
theorem DeleteSpec_snapshot_restores:
  assumes "layers w l = Some d"
  shows "UndoStateDelegate__OnDeleteSpec l d p inert w =
           UndoStateDelegate__RouteInverse
             (BindInvertDeleteSpec l p inert (GetSpecType d p) (fmfilter (prefix p) d))
             (UndoStateDelegate__MarkCurrentStateAsDirty l w)
       \<and> (\<forall>q f. prefix p q \<longrightarrow>
             GetSpecType (fmfilter (prefix p) d) q = GetSpecType d q
             \<and> GetField (fmfilter (prefix p) d) q f = GetField d q f)
       \<and> layers (DeleteSpec l p inert w) l = Some (fmfilter (\<lambda>q. \<not> prefix p q) d)
       \<and> fst (call (BindInvertDeleteSpec l p inert (GetSpecType d p) (fmfilter (prefix p) d))
               (DeleteSpec l p inert w))
       \<and> layers (snd (call (BindInvertDeleteSpec l p inert (GetSpecType d p) (fmfilter (prefix p) d))
               (DeleteSpec l p inert w))) l = Some d"
proof -
  let ?iv = "BindInvertDeleteSpec l p inert (GetSpecType d p) (fmfilter (prefix p) d)"
  let ?d' = "fmfilter (\<lambda>q. \<not> prefix p q) d"
  let ?w' = "DeleteSpec l p inert w"
  have 1: "UndoStateDelegate__OnDeleteSpec l d p inert w =
      UndoStateDelegate__RouteInverse ?iv (UndoStateDelegate__MarkCurrentStateAsDirty l w)"
    by (simp add: UndoStateDelegate__OnDeleteSpec_def snapshot_eq Let_def)
  have 2: "\<forall>q f. prefix p q \<longrightarrow>
             GetSpecType (fmfilter (prefix p) d) q = GetSpecType d q
             \<and> GetField (fmfilter (prefix p) d) q f = GetField d q f"
    by (simp add: GetSpecType_def GetField_def)
  have 3: "layers ?w' l = Some ?d'"
    using assms by (simp add: DeleteSpec_live committed_fields PrimDeleteSpec_eq)
  have c: "call ?iv ?w' = (True, committed ?iv ?d' ?w')"
    by (rule call_live) (simp add: 3)
  have r: "call_writes ?iv ?d' = d"
    by (simp only: call_writes.simps restore_eq)
  have 5: "layers (snd (call ?iv ?w')) l = Some d"
    using 3 by (simp add: c committed_fields(4)[of _ ?iv] r del: call_writes.simps)
  show ?thesis using 1 2 3 5 by (simp add: c)
qed

theorem DeleteSpec_snapshot_restores_witness:
  "layers example_world 0 = Some example_data
   \<and> GetField (fmfilter (prefix [''World'']) example_data) [''World'', ''radius''] ''default'' =
       Some (VtInt 2)
   \<and> layers (DeleteSpec 0 [''World''] False example_world) 0 =
       Some (fmfilter (\<lambda>q. \<not> prefix [''World''] q) example_data)
   \<and> GetSpecType (fmfilter (\<lambda>q. \<not> prefix [''World''] q) example_data) [''World'', ''radius''] = None
   \<and> layers (snd (call (BindInvertDeleteSpec 0 [''World''] False
                           (GetSpecType example_data [''World''])
                           (fmfilter (prefix [''World'']) example_data))
                     (DeleteSpec 0 [''World''] False example_world))) 0 = Some example_data"
proof -
  have h: "layers example_world 0 = Some example_data"
    by (simp add: example_defs layers_def)
  have e: "GetField (fmfilter (prefix [''World'']) example_data) [''World'', ''radius''] ''default'' =
       Some (VtInt 2)"
    "GetSpecType (fmfilter (\<lambda>q. \<not> prefix [''World''] q) example_data) [''World'', ''radius''] = None"
    by (simp_all add: GetField_def GetSpecType_def example_data_def)
  show ?thesis
    using h e DeleteSpec_snapshot_restores [OF h, of "[''World'']" False]
    by simp
qed


section \<open>Lemmas: the edits that are taken back exactly\<close>

lemma edit_ok_simps [simp]:
  "edit_ok (EditSetField l p f v) d = True"
  "edit_ok (EditSetFieldDictValueByKey l p f k v) d =
     (case GetField d p f of
        None \<Rightarrow> True
      | Some (VtDictionary m) \<Rightarrow> m \<noteq> fmempty
      | Some _ \<Rightarrow> v = None)"
  "edit_ok (EditSetTimeSample l p t v) d =
     (case GetField d p TimeSamples of
        None \<Rightarrow> True
      | Some (VtTimeSamples m) \<Rightarrow> m \<noteq> fmempty
      | Some _ \<Rightarrow> v = None)"
  "edit_ok (EditCreateSpec l p ty inert) d = (subtree d p = [])"
  "edit_ok (EditDeleteSpec l p inert) d = True"
  "edit_ok (EditMoveSpec l old new) d =
     (subtree d new = [] \<and> \<not> prefix old new \<and> \<not> prefix new old)"
  "edit_ok (EditPushTokenChild l p f c) d =
     (case GetField d p f of
        None \<Rightarrow> fmlookup d p = None
      | Some (VtTokenVector xs) \<Rightarrow> True
      | Some _ \<Rightarrow> False)"
  "edit_ok (EditPushPathChild l p f q) d =
     (case GetField d p f of
        None \<Rightarrow> fmlookup d p = None
      | Some (VtPathVector xs) \<Rightarrow> True
      | Some _ \<Rightarrow> False)"
  "edit_ok (EditPopTokenChild l p f c) d =
     (case GetField d p f of
        None \<Rightarrow> fmlookup d p = None
      | Some (VtTokenVector xs) \<Rightarrow> xs \<noteq> [] \<and> last xs = c
      | Some _ \<Rightarrow> False)"
  "edit_ok (EditPopPathChild l p f q) d =
     (case GetField d p f of
        None \<Rightarrow> fmlookup d p = None
      | Some (VtPathVector xs) \<Rightarrow> xs \<noteq> [] \<and> last xs = q
      | Some _ \<Rightarrow> False)"
  by (simp_all add: edit_ok_def)


lemma fmupd_fmdrop [simp]: "fmupd f x (fmdrop f F) = fmupd f x F"
  by (rule fmap_ext) auto

lemma fmdrop_fmupd [simp]: "fmdrop f (fmupd f x F) = fmdrop f F"
  by (rule fmap_ext) auto

lemma fmdrop_absent: "fmlookup F f = None \<Longrightarrow> fmdrop f F = F"
  by (rule fmap_ext) auto

lemma fmupd_present: "fmlookup F f = Some x \<Longrightarrow> fmupd f x F = F"
  by (rule fmap_ext) auto

lemma Erase_Set_field: "Erase p f d = Set_field p f None d"
  by (simp add: Set_field_def)

lemma Set_field_absent: "fmlookup d p = None \<Longrightarrow> Set_field p f v d = d"
  by (simp add: Set_field_def Erase_def split: option.splits)

lemma GetField_absent: "fmlookup d p = None \<Longrightarrow> GetField d p f = None"
  by (simp add: GetField_def)

lemma GetField_Set_field:
  "fmlookup d p \<noteq> None \<Longrightarrow> GetField (Set_field p f v d) p f = v"
  by (auto simp: Set_field_def Erase_def GetField_def split: option.splits)

lemma Set_field_Set_field: "Set_field p f v (Set_field p f u d) = Set_field p f v d"
  by (rule fmap_ext) (auto simp: Set_field_def Erase_def split: option.splits intro!: fmap_ext)

lemma Set_field_GetField: "Set_field p f (GetField d p f) d = d"
proof (cases "fmlookup d p")
  case None then show ?thesis by (simp add: Set_field_absent)
next
  case (Some sp)
  show ?thesis
  proof (cases "fmlookup (specFields sp) f")
    case None
    have "fmdrop f (specFields sp) = specFields sp"
      using None by (rule fmdrop_absent)
    then show ?thesis using Some None
      by (auto simp: Set_field_def Erase_def GetField_def intro!: fmap_ext)
  next
    case (Some x)
    have "fmupd f x (specFields sp) = specFields sp"
      using Some by (rule fmupd_present)
    then show ?thesis using \<open>fmlookup d p = Some sp\<close> Some
      by (auto simp: Set_field_def Erase_def GetField_def intro!: fmap_ext)
  qed
qed

lemma fmlookup_Set_field_present:
  "fmlookup d p \<noteq> None \<Longrightarrow> fmlookup (Set_field p f v d) p \<noteq> None"
  by (auto simp: Set_field_def Erase_def split: option.splits)

text \<open>The primitives that write one field, as writes of a transformed value.\<close>

lemma PrimSetFieldDictValueByKey_alt:
  "PrimSetFieldDictValueByKey p f k v d = Set_field p f (dict_put k v (GetField d p f)) d"
proof -
  have "Set_field p f (GetField d p f) d = d" by (rule Set_field_GetField)
  then show ?thesis
    by (auto simp: PrimSetFieldDictValueByKey_def dict_put_def Erase_Set_field Let_def
        split: option.splits vt.splits)
qed

lemma PrimSetTimeSample_alt:
  "PrimSetTimeSample p t v d =
     Set_field p TimeSamples (samples_put t v (GetField d p TimeSamples)) d"
proof -
  have "Set_field p TimeSamples (GetField d p TimeSamples) d = d" by (rule Set_field_GetField)
  then show ?thesis
    by (auto simp: PrimSetTimeSample_def samples_put_def Erase_Set_field Let_def
        split: option.splits vt.splits)
qed

lemma PrimPushTokenChild_alt:
  "PrimPushTokenChild p f v d = Set_field p f (tokens_push v (GetField d p f)) d"
  by (simp add: PrimPushTokenChild_def tokens_push_def Let_def)

lemma PrimPopTokenChild_alt:
  "PrimPopTokenChild p f d = Set_field p f (tokens_pop (GetField d p f)) d"
proof -
  have "Set_field p f (GetField d p f) d = d" by (rule Set_field_GetField)
  then show ?thesis
    by (auto simp: PrimPopTokenChild_def tokens_pop_def split: option.splits vt.splits)
qed

lemma PrimPushPathChild_alt:
  "PrimPushPathChild p f v d = Set_field p f (paths_push v (GetField d p f)) d"
  by (simp add: PrimPushPathChild_def paths_push_def Let_def)

lemma PrimPopPathChild_alt:
  "PrimPopPathChild p f d = Set_field p f (paths_pop (GetField d p f)) d"
proof -
  have "Set_field p f (GetField d p f) d = d" by (rule Set_field_GetField)
  then show ?thesis
    by (auto simp: PrimPopPathChild_def paths_pop_def split: option.splits vt.splits)
qed

text \<open>Writing \<open>g cur\<close> and then \<open>cur\<close> again gives the layer back.\<close>
lemma write_back:
  "Set_field p f (GetField d p f) (Set_field p f v d) = d"
  by (simp add: Set_field_Set_field Set_field_GetField)

lemma Set_field_reread: "Set_field p f (GetField (Set_field p f v d) p f) d = Set_field p f v d"
proof (cases "fmlookup d p")
  case None then show ?thesis by (simp add: Set_field_absent)
next
  case (Some sp) then show ?thesis by (simp add: GetField_Set_field)
qed

lemma GetFieldDictValueByKey_alt:
  "GetFieldDictValueByKey d p f k =
     (case GetField d p f of Some (VtDictionary m) \<Rightarrow> fmlookup m k | _ \<Rightarrow> None)"
  by (simp add: GetFieldDictValueByKey_def)

lemma fmdrop_empty_singleton:
  "fmdrop k m = fmempty \<Longrightarrow> fmlookup m k = Some y \<Longrightarrow> fmupd k y fmempty = m"
proof (rule fmap_ext)
  fix x
  assume a: "fmdrop k m = fmempty" "fmlookup m k = Some y"
  have "fmlookup (fmdrop k m) x = None" by (simp add: a(1))
  then show "fmlookup (fmupd k y fmempty) x = fmlookup m x"
    using a(2) by (auto split: if_splits)
qed

lemma fmupd_not_empty [simp]: "fmupd k x m \<noteq> fmempty"
proof
  assume "fmupd k x m = fmempty"
  then have "fmlookup (fmupd k x m) k = fmlookup fmempty k" by simp
  then show False by simp
qed

lemma dict_put_back:
  assumes "case cur of None \<Rightarrow> True | Some (VtDictionary m) \<Rightarrow> m \<noteq> fmempty | Some _ \<Rightarrow> v = None"
  shows "dict_put k (case cur of Some (VtDictionary m) \<Rightarrow> fmlookup m k | _ \<Rightarrow> None)
           (dict_put k v cur) = cur"
proof (cases cur)
  case None
  then show ?thesis by (cases v) (simp_all add: dict_put_def)
next
  case (Some c)
  show ?thesis
  proof (cases c)
    case (VtDictionary m)
    with Some assms have ne: "m \<noteq> fmempty" by simp
    show ?thesis
    proof (cases "fmlookup m k")
      case None
      then have "fmdrop k m = m" by (rule fmdrop_absent)
      then show ?thesis using Some VtDictionary None ne
        by (cases v) (simp_all add: dict_put_def)
    next
      case (Some y)
      have u: "fmupd k y m = m" using Some by (rule fmupd_present)
      have s: "fmdrop k m = fmempty \<Longrightarrow> fmupd k y fmempty = m"
        using Some by (simp add: fmdrop_empty_singleton)
      have r: "fmupd k y (fmdrop k m) = m" using u by simp
      show ?thesis using \<open>cur = Some c\<close> VtDictionary Some u s r
        by (cases v) (auto simp: dict_put_def simp del: fmupd_fmdrop)
    qed
  qed (use Some assms in \<open>simp_all add: dict_put_def\<close>)
qed

lemma dict_put_again:
  assumes "case cur of None \<Rightarrow> True | Some (VtDictionary m) \<Rightarrow> m \<noteq> fmempty | Some _ \<Rightarrow> v = None"
  shows "dict_put k (case dict_put k v cur of Some (VtDictionary m) \<Rightarrow> fmlookup m k | _ \<Rightarrow> None) cur
           = dict_put k v cur"
  using assms by (cases v) (auto simp: dict_put_def split: option.splits vt.splits)

lemma samples_put_back:
  assumes "case cur of None \<Rightarrow> True | Some (VtTimeSamples m) \<Rightarrow> m \<noteq> fmempty | Some _ \<Rightarrow> v = None"
  shows "samples_put k (case cur of Some (VtTimeSamples m) \<Rightarrow> fmlookup m k | _ \<Rightarrow> None)
           (samples_put k v cur) = cur"
proof (cases cur)
  case None
  then show ?thesis by (cases v) (simp_all add: samples_put_def)
next
  case (Some c)
  show ?thesis
  proof (cases c)
    case (VtTimeSamples m)
    with Some assms have ne: "m \<noteq> fmempty" by simp
    show ?thesis
    proof (cases "fmlookup m k")
      case None
      then have "fmdrop k m = m" by (rule fmdrop_absent)
      then show ?thesis using Some VtTimeSamples None ne
        by (cases v) (simp_all add: samples_put_def)
    next
      case (Some y)
      have u: "fmupd k y m = m" using Some by (rule fmupd_present)
      have s: "fmdrop k m = fmempty \<Longrightarrow> fmupd k y fmempty = m"
        using Some by (simp add: fmdrop_empty_singleton)
      have r: "fmupd k y (fmdrop k m) = m" using u by simp
      show ?thesis using \<open>cur = Some c\<close> VtTimeSamples Some u s r
        by (cases v) (auto simp: samples_put_def simp del: fmupd_fmdrop)
    qed
  qed (use Some assms in \<open>simp_all add: samples_put_def\<close>)
qed

lemma samples_put_again:
  assumes "case cur of None \<Rightarrow> True | Some (VtTimeSamples m) \<Rightarrow> m \<noteq> fmempty | Some _ \<Rightarrow> v = None"
  shows "samples_put k (case samples_put k v cur of Some (VtTimeSamples m) \<Rightarrow> fmlookup m k | _ \<Rightarrow> None) cur
           = samples_put k v cur"
  using assms by (cases v) (auto simp: samples_put_def split: option.splits vt.splits)

lemma field_round:
  assumes "fmlookup d p \<noteq> None \<Longrightarrow> g v = GetField d p f"
  shows "Set_field p f (g (GetField (Set_field p f v d) p f)) (Set_field p f v d) = d"
proof (cases "fmlookup d p")
  case None then show ?thesis by (simp add: Set_field_absent)
next
  case (Some sp)
  then have "g v = GetField d p f" using assms by simp
  then show ?thesis using Some
    by (simp add: GetField_Set_field Set_field_Set_field Set_field_GetField)
qed

lemma field_again:
  assumes "fmlookup d p \<noteq> None \<Longrightarrow> u = v"
  shows "Set_field p f u d = Set_field p f v d"
proof (cases "fmlookup d p")
  case None then show ?thesis by (simp add: Set_field_absent)
next
  case (Some sp) then show ?thesis using assms by simp
qed

lemma QueryTimeSample_alt:
  "QueryTimeSample d p t =
     (case GetField d p TimeSamples of Some (VtTimeSamples m) \<Rightarrow> fmlookup m t | _ \<Rightarrow> None)"
  by (simp add: QueryTimeSample_def)

lemma reversible_SetField:
  "call_writes (call_binds (BindInvertSetField l p f v) d) (PrimSetField p f v d) = d"
  "call_writes (call_binds (call_binds (BindInvertSetField l p f v) d) (PrimSetField p f v d)) d
     = PrimSetField p f v d"
  by (simp_all add: PrimSetField_def write_back Set_field_reread)

lemma reversible_Dict:
  assumes "case GetField d p f of None \<Rightarrow> True | Some (VtDictionary m) \<Rightarrow> m \<noteq> fmempty
           | Some _ \<Rightarrow> v = None"
  shows "call_writes (call_binds (BindInvertSetFieldDictValueByKey l p f k v) d)
           (PrimSetFieldDictValueByKey p f k v d) = d"
    and "call_writes (call_binds (call_binds (BindInvertSetFieldDictValueByKey l p f k v) d)
           (PrimSetFieldDictValueByKey p f k v d)) d = PrimSetFieldDictValueByKey p f k v d"
proof -
  let ?cur = "GetField d p f"
  let ?old = "case ?cur of Some (VtDictionary m) \<Rightarrow> fmlookup m k | _ \<Rightarrow> None"
  let ?d' = "Set_field p f (dict_put k v ?cur) d"
  have "Set_field p f (dict_put k ?old (GetField ?d' p f)) ?d' = d"
    by (rule field_round) (rule dict_put_back[OF assms])
  then show "call_writes (call_binds (BindInvertSetFieldDictValueByKey l p f k v) d)
           (PrimSetFieldDictValueByKey p f k v d) = d"
    by (simp add: PrimSetFieldDictValueByKey_alt GetFieldDictValueByKey_alt)
  have "Set_field p f
          (dict_put k (case GetField ?d' p f of Some (VtDictionary m) \<Rightarrow> fmlookup m k | _ \<Rightarrow> None) ?cur) d
        = Set_field p f (dict_put k v ?cur) d"
    by (rule field_again) (simp add: GetField_Set_field dict_put_again[OF assms])
  then show "call_writes (call_binds (call_binds (BindInvertSetFieldDictValueByKey l p f k v) d)
           (PrimSetFieldDictValueByKey p f k v d)) d = PrimSetFieldDictValueByKey p f k v d"
    by (simp add: PrimSetFieldDictValueByKey_alt GetFieldDictValueByKey_alt)
qed

lemma reversible_TimeSample:
  assumes "case GetField d p TimeSamples of None \<Rightarrow> True
           | Some (VtTimeSamples m) \<Rightarrow> m \<noteq> fmempty | Some _ \<Rightarrow> v = None"
  shows "call_writes (call_binds (BindInvertSetTimeSample l p t v) d)
           (PrimSetTimeSample p t v d) = d"
    and "call_writes (call_binds (call_binds (BindInvertSetTimeSample l p t v) d)
           (PrimSetTimeSample p t v d)) d = PrimSetTimeSample p t v d"
proof -
  let ?cur = "GetField d p TimeSamples"
  let ?old = "case ?cur of Some (VtTimeSamples m) \<Rightarrow> fmlookup m t | _ \<Rightarrow> None"
  let ?d' = "Set_field p TimeSamples (samples_put t v ?cur) d"
  show "call_writes (call_binds (BindInvertSetTimeSample l p t v) d)
           (PrimSetTimeSample p t v d) = d"
  proof (cases "HasField d p TimeSamples")
    case False
    then have c: "?cur = None" by (simp add: HasField_def)
    have "Set_field p TimeSamples None ?d' = Set_field p TimeSamples ?cur d"
      by (simp add: Set_field_Set_field c)
    then show ?thesis using False
      by (simp add: PrimSetTimeSample_alt PrimSetField_def Set_field_GetField)
  next
    case True
    have "Set_field p TimeSamples (samples_put t ?old (GetField ?d' p TimeSamples)) ?d' = d"
      by (rule field_round) (rule samples_put_back[OF assms])
    then show ?thesis using True
      by (simp add: PrimSetTimeSample_alt QueryTimeSample_alt)
  qed
  show "call_writes (call_binds (call_binds (BindInvertSetTimeSample l p t v) d)
           (PrimSetTimeSample p t v d)) d = PrimSetTimeSample p t v d"
  proof (cases "HasField d p TimeSamples")
    case False
    then show ?thesis
      by (simp add: PrimSetTimeSample_alt PrimSetField_def Set_field_reread)
  next
    case True
    have "Set_field p TimeSamples
          (samples_put t (case GetField ?d' p TimeSamples of
                            Some (VtTimeSamples m) \<Rightarrow> fmlookup m t | _ \<Rightarrow> None) ?cur) d
        = Set_field p TimeSamples (samples_put t v ?cur) d"
      by (rule field_again) (simp add: GetField_Set_field samples_put_again[OF assms])
    then have a: "HasField ?d' p TimeSamples \<Longrightarrow> ?thesis"
      using True by (simp add: PrimSetTimeSample_alt QueryTimeSample_alt)
    have p: "fmlookup d p \<noteq> None" using True by (auto simp: HasField_def GetField_def split: option.splits)
    have "\<not> HasField ?d' p TimeSamples \<Longrightarrow> samples_put t v ?cur = None"
      using p by (simp add: HasField_def GetField_Set_field)
    then have b: "\<not> HasField ?d' p TimeSamples \<Longrightarrow> ?thesis"
      using True by (simp add: PrimSetTimeSample_alt PrimSetField_def)
    show ?thesis using a b by blast
  qed
qed

lemma reversible_PushToken:
  assumes "case GetField d p f of None \<Rightarrow> fmlookup d p = None
           | Some (VtTokenVector xs) \<Rightarrow> True | Some _ \<Rightarrow> False"
  shows "call_writes (call_binds (BindInvertPopTokenChild l p f v) d) (PrimPushTokenChild p f v d) = d"
    and "call_writes (call_binds (call_binds (BindInvertPopTokenChild l p f v) d)
           (PrimPushTokenChild p f v d)) d = PrimPushTokenChild p f v d"
proof -
  let ?cur = "GetField d p f"
  let ?d' = "Set_field p f (tokens_push v ?cur) d"
  have "fmlookup d p \<noteq> None \<Longrightarrow> tokens_pop (tokens_push v ?cur) = ?cur"
    using assms by (auto simp: tokens_pop_def tokens_push_def split: option.splits vt.splits)
  then have "Set_field p f (tokens_pop (GetField ?d' p f)) ?d' = d"
    by (rule field_round)
  then show "call_writes (call_binds (BindInvertPopTokenChild l p f v) d) (PrimPushTokenChild p f v d) = d"
    by (simp add: PrimPushTokenChild_alt PrimPopTokenChild_alt)
  show "call_writes (call_binds (call_binds (BindInvertPopTokenChild l p f v) d)
           (PrimPushTokenChild p f v d)) d = PrimPushTokenChild p f v d"
    by simp
qed

lemma reversible_PushPath:
  assumes "case GetField d p f of None \<Rightarrow> fmlookup d p = None
           | Some (VtPathVector xs) \<Rightarrow> True | Some _ \<Rightarrow> False"
  shows "call_writes (call_binds (BindInvertPopPathChild l p f v) d) (PrimPushPathChild p f v d) = d"
    and "call_writes (call_binds (call_binds (BindInvertPopPathChild l p f v) d)
           (PrimPushPathChild p f v d)) d = PrimPushPathChild p f v d"
proof -
  let ?cur = "GetField d p f"
  let ?d' = "Set_field p f (paths_push v ?cur) d"
  have "fmlookup d p \<noteq> None \<Longrightarrow> paths_pop (paths_push v ?cur) = ?cur"
    using assms by (auto simp: paths_pop_def paths_push_def split: option.splits vt.splits)
  then have "Set_field p f (paths_pop (GetField ?d' p f)) ?d' = d"
    by (rule field_round)
  then show "call_writes (call_binds (BindInvertPopPathChild l p f v) d) (PrimPushPathChild p f v d) = d"
    by (simp add: PrimPushPathChild_alt PrimPopPathChild_alt)
  show "call_writes (call_binds (call_binds (BindInvertPopPathChild l p f v) d)
           (PrimPushPathChild p f v d)) d = PrimPushPathChild p f v d"
    by simp
qed

lemma reversible_PopToken:
  assumes "case GetField d p f of None \<Rightarrow> fmlookup d p = None
           | Some (VtTokenVector xs) \<Rightarrow> xs \<noteq> [] \<and> last xs = v | Some _ \<Rightarrow> False"
  shows "call_writes (call_binds (BindInvertPushTokenChild l p f v) d) (PrimPopTokenChild p f d) = d"
    and "call_writes (call_binds (call_binds (BindInvertPushTokenChild l p f v) d)
           (PrimPopTokenChild p f d)) d = PrimPopTokenChild p f d"
proof -
  let ?cur = "GetField d p f"
  let ?d' = "Set_field p f (tokens_pop ?cur) d"
  have "fmlookup d p \<noteq> None \<Longrightarrow> tokens_push v (tokens_pop ?cur) = ?cur"
    using assms by (auto simp: tokens_pop_def tokens_push_def split: option.splits vt.splits)
  then have "Set_field p f (tokens_push v (GetField ?d' p f)) ?d' = d"
    by (rule field_round)
  then show "call_writes (call_binds (BindInvertPushTokenChild l p f v) d) (PrimPopTokenChild p f d) = d"
    by (simp add: PrimPushTokenChild_alt PrimPopTokenChild_alt)
  show "call_writes (call_binds (call_binds (BindInvertPushTokenChild l p f v) d)
           (PrimPopTokenChild p f d)) d = PrimPopTokenChild p f d"
    by simp
qed

lemma reversible_PopPath:
  assumes "case GetField d p f of None \<Rightarrow> fmlookup d p = None
           | Some (VtPathVector xs) \<Rightarrow> xs \<noteq> [] \<and> last xs = v | Some _ \<Rightarrow> False"
  shows "call_writes (call_binds (BindInvertPushPathChild l p f v) d) (PrimPopPathChild p f d) = d"
    and "call_writes (call_binds (call_binds (BindInvertPushPathChild l p f v) d)
           (PrimPopPathChild p f d)) d = PrimPopPathChild p f d"
proof -
  let ?cur = "GetField d p f"
  let ?d' = "Set_field p f (paths_pop ?cur) d"
  have "fmlookup d p \<noteq> None \<Longrightarrow> paths_push v (paths_pop ?cur) = ?cur"
    using assms by (auto simp: paths_pop_def paths_push_def split: option.splits vt.splits)
  then have "Set_field p f (paths_push v (GetField ?d' p f)) ?d' = d"
    by (rule field_round)
  then show "call_writes (call_binds (BindInvertPushPathChild l p f v) d) (PrimPopPathChild p f d) = d"
    by (simp add: PrimPushPathChild_alt PrimPopPathChild_alt)
  show "call_writes (call_binds (call_binds (BindInvertPushPathChild l p f v) d)
           (PrimPopPathChild p f d)) d = PrimPopPathChild p f d"
    by simp
qed

lemma reversible_Delete:
  "call_writes (call_binds (BindInvertCreateSpec l p inert) d) (PrimDeleteSpec p inert d) = d"
  "call_writes (call_binds (call_binds (BindInvertCreateSpec l p inert) d) (PrimDeleteSpec p inert d)) d
     = PrimDeleteSpec p inert d"
proof -
  show "call_writes (call_binds (BindInvertCreateSpec l p inert) d) (PrimDeleteSpec p inert d) = d"
    by (simp only: call_binds.simps call_writes.simps snapshot_eq PrimDeleteSpec_eq restore_eq)
  show "call_writes (call_binds (call_binds (BindInvertCreateSpec l p inert) d) (PrimDeleteSpec p inert d)) d
     = PrimDeleteSpec p inert d"
    by simp
qed

lemma created_filter:
  assumes "subtree d p = []"
  shows "fmfilter (\<lambda>q. \<not> prefix p q) (PrimCreateSpec p ty inert d) = d"
proof (rule fmap_ext)
  fix r
  have n: "\<And>q. prefix p q \<Longrightarrow> fmlookup d q = None"
    using assms by (simp add: subtree_empty_iff)
  show "fmlookup (fmfilter (\<lambda>q. \<not> prefix p q) (PrimCreateSpec p ty inert d)) r = fmlookup d r"
    using n[of r] n[of p]
    by (auto simp: PrimCreateSpec_def CreateSpec_data_def split: option.splits)
qed

lemma reversible_Create:
  assumes "subtree d p = []"
  shows "call_writes (call_binds (BindInvertDeleteSpec l p inert ty fmempty) d)
           (PrimCreateSpec p ty inert d) = d"
    and "call_writes (call_binds (call_binds (BindInvertDeleteSpec l p inert ty fmempty) d)
           (PrimCreateSpec p ty inert d)) d = PrimCreateSpec p ty inert d"
proof -
  let ?d' = "PrimCreateSpec p ty inert d"
  show "call_writes (call_binds (BindInvertDeleteSpec l p inert ty fmempty) d) ?d' = d"
    by (simp only: call_binds.simps call_writes.simps PrimDeleteSpec_eq created_filter[OF assms])
  have "fold (\<lambda>specId acc. CopySpec (fmfilter (prefix p) ?d') acc specId)
          (sorted_list_of_fset (fmdom (fmfilter (prefix p) ?d')))
          (PrimCreateSpec p (GetSpecType ?d' p) inert (fmfilter (\<lambda>q. \<not> prefix p q) ?d')) = ?d'"
    by (rule restore_eq)
  then show "call_writes (call_binds (call_binds (BindInvertDeleteSpec l p inert ty fmempty) d) ?d') d = ?d'"
    by (simp only: call_binds.simps call_writes.simps snapshot_eq created_filter[OF assms])
qed

lemma retarget_back:
  "prefix old q \<Longrightarrow> old @ drop (length new) (new @ drop (length old) q) = q"
  by (auto simp: prefix_def)

lemma retarget_forth:
  "prefix new r \<Longrightarrow> new @ drop (length old) (old @ drop (length new) r) = r"
  by (auto simp: prefix_def)

lemma prefix_append_drop: "prefix old r \<Longrightarrow> old @ drop (length old) r = r"
  by (auto simp: prefix_def)

lemma two_prefixes:
  "prefix old q \<Longrightarrow> prefix new q \<Longrightarrow> \<not> prefix old new \<Longrightarrow> \<not> prefix new old \<Longrightarrow> False"
  using prefix_same_cases by blast

lemma MoveSpec_data_lookup:
  "fmlookup acc q = Some sp \<Longrightarrow> fmlookup acc t = None \<Longrightarrow>
   fmlookup (MoveSpec_data q t acc) r =
     (if r = q then None else if r = t then Some sp else fmlookup acc r)"
  by (auto simp: MoveSpec_data_def)

lemma fold_MoveSpec:
  assumes "\<not> prefix old new" "\<not> prefix new old"
  shows "distinct qs \<Longrightarrow> \<forall>q\<in>set qs. prefix old q \<Longrightarrow>
     \<forall>q\<in>set qs. fmlookup acc q \<noteq> None \<Longrightarrow>
     \<forall>q\<in>set qs. fmlookup acc (new @ drop (length old) q) = None \<Longrightarrow>
     fmlookup (fold (\<lambda>q acc. MoveSpec_data q (new @ drop (length old) q) acc) qs acc) r =
       (if r \<in> set qs then None
        else if prefix new r \<and> old @ drop (length new) r \<in> set qs
             then fmlookup acc (old @ drop (length new) r)
             else fmlookup acc r)"
proof (induction qs arbitrary: acc)
  case Nil
  then show ?case by simp
next
  case (Cons q0 qs)
  let ?tgt = "\<lambda>q. new @ drop (length old) q"
  let ?src = "\<lambda>r. old @ drop (length new) r"
  from Cons.prems obtain sp where sp: "fmlookup acc q0 = Some sp" by auto
  have t0: "fmlookup acc (?tgt q0) = None" using Cons.prems by simp
  have p0: "prefix old q0" using Cons.prems by simp
  let ?acc' = "MoveSpec_data q0 (?tgt q0) acc"
  note lk = MoveSpec_data_lookup[OF sp t0]
  have nt: "\<And>q. prefix old q \<Longrightarrow> q \<noteq> ?tgt q0"
    using two_prefixes[OF _ _ assms] by (metis prefixI)
  have inj: "\<And>q. prefix old q \<Longrightarrow> ?tgt q = ?tgt q0 \<Longrightarrow> q = q0"
    using p0 by (auto simp: prefix_def)
  have d: "distinct qs" and n0: "q0 \<notin> set qs" using Cons.prems by simp_all
  have pq: "\<forall>q\<in>set qs. prefix old q" using Cons.prems by simp
  have a1: "\<forall>q\<in>set qs. fmlookup ?acc' q \<noteq> None"
    using Cons.prems(3) n0 by (auto simp: lk)
  have a2: "\<forall>q\<in>set qs. fmlookup ?acc' (?tgt q) = None"
  proof
    fix q assume q: "q \<in> set qs"
    then have "prefix old q" using pq by simp
    then have "?tgt q \<noteq> ?tgt q0" using inj q n0 by blast
    moreover have "fmlookup acc (?tgt q) = None" using Cons.prems(4) q by simp
    ultimately show "fmlookup ?acc' (?tgt q) = None" by (simp add: lk)
  qed
  note IH = Cons.IH[OF d pq a1 a2]
  have np: "\<not> prefix new q0" using two_prefixes[OF p0 _ assms] by blast
  have npq: "\<And>q. q \<in> set qs \<Longrightarrow> \<not> prefix new q"
    using two_prefixes[OF _ _ assms] pq by blast
  show ?case
  proof (cases "r = q0")
    case eq: True
    show ?thesis using n0 np unfolding eq by (simp add: IH[unfolded eq] lk)
  next
    case r0: False
    show ?thesis
    proof (cases "r \<in> set qs")
      case True
      then show ?thesis by (simp add: IH)
    next
      case rq: False
      show ?thesis
      proof (cases "prefix new r")
        case False
        then have "r \<noteq> ?tgt q0" by auto
        then show ?thesis using False r0 rq by (simp add: IH lk)
      next
        case pr: True
        have bk: "?tgt (?src r) = r" using pr by (rule retarget_forth)
        show ?thesis
        proof (cases "?src r = q0")
          case True
          have v: "fmlookup (fold (\<lambda>q acc. MoveSpec_data q (new @ drop (length old) q) acc) qs ?acc') r
              = fmlookup ?acc' r"
            using rq pr n0 True by (simp add: IH)
          have "r = ?tgt q0" using bk True by simp
          then have "fmlookup ?acc' r = Some sp" using r0 by (simp add: lk)
          then show ?thesis using v r0 rq pr True sp by simp
        next
          case s0: False
          then have rt: "r \<noteq> ?tgt q0" using p0 retarget_back[OF p0, of new] by auto
          have st: "?src r \<noteq> ?tgt q0" using nt[of "?src r"] by simp
          show ?thesis using s0 rt st r0 rq pr by (simp add: IH lk)
        qed
      qed
    qed
  qed
qed

lemma PrimMoveSpec_lookup:
  assumes "subtree d new = []" "\<not> prefix old new" "\<not> prefix new old"
  shows "fmlookup (PrimMoveSpec old new d) r =
     (if prefix old r then None
      else if prefix new r then fmlookup d (old @ drop (length new) r)
      else fmlookup d r)"
proof -
  have free: "\<And>q. prefix new q \<Longrightarrow> fmlookup d q = None"
    using assms(1) by (simp add: subtree_empty_iff)
  have c1: "\<forall>q\<in>set (subtree d old). prefix old q" by (simp add: set_subtree)
  have c2: "\<forall>q\<in>set (subtree d old). fmlookup d q \<noteq> None"
    by (auto simp: set_subtree fmlookup_dom_iff)
  have c3: "\<forall>q\<in>set (subtree d old). fmlookup d (new @ drop (length old) q) = None"
    by (simp add: free)
  note f = fold_MoveSpec[OF assms(2,3) distinct_subtree c1 c2 c3, of r]
  have m: "r \<in> set (subtree d old) \<longleftrightarrow> prefix old r \<and> fmlookup d r \<noteq> None"
    by (auto simp: set_subtree fmlookup_dom_iff)
  have ms: "old @ drop (length new) r \<in> set (subtree d old) \<longleftrightarrow>
      fmlookup d (old @ drop (length new) r) \<noteq> None"
    by (auto simp: set_subtree fmlookup_dom_iff)
  show ?thesis
  proof (cases "prefix old r")
    case True
    then have "\<not> prefix new r" using two_prefixes[OF True _ assms(2,3)] by blast
    then show ?thesis using True unfolding PrimMoveSpec_def f m by auto
  next
    case False
    then show ?thesis unfolding PrimMoveSpec_def f m ms using free[of r] by auto
  qed
qed

lemma reversible_Move:
  assumes "subtree d new = []" "\<not> prefix old new" "\<not> prefix new old"
  shows "call_writes (call_binds (BindInvertMoveSpec l new old) d) (PrimMoveSpec old new d) = d"
    and "call_writes (call_binds (call_binds (BindInvertMoveSpec l new old) d) (PrimMoveSpec old new d)) d
           = PrimMoveSpec old new d"
proof -
  let ?d' = "PrimMoveSpec old new d"
  have free: "\<And>q. prefix new q \<Longrightarrow> fmlookup d q = None"
    using assms(1) by (simp add: subtree_empty_iff)
  have e: "subtree ?d' old = []"
    by (simp add: subtree_empty_iff PrimMoveSpec_lookup[OF assms])
  have "PrimMoveSpec new old ?d' = d"
  proof (rule fmap_ext)
    fix r
    show "fmlookup (PrimMoveSpec new old ?d') r = fmlookup d r"
    proof (cases "prefix new r")
      case True
      then show ?thesis using free[of r]
        by (simp add: PrimMoveSpec_lookup[OF e assms(3,2)])
    next
      case False
      show ?thesis
      proof (cases "prefix old r")
        case True
        have "\<not> prefix old (new @ drop (length old) r)"
          using two_prefixes[OF _ _ assms(2,3), of "new @ drop (length old) r"] by auto
        then show ?thesis using True False
          by (simp add: PrimMoveSpec_lookup[OF e assms(3,2)] PrimMoveSpec_lookup[OF assms]
              prefix_append_drop)
      next
        case nf: False
        then show ?thesis using False
          by (simp add: PrimMoveSpec_lookup[OF e assms(3,2)] PrimMoveSpec_lookup[OF assms])
      qed
    qed
  qed
  then show "call_writes (call_binds (BindInvertMoveSpec l new old) d) ?d' = d" by simp
  show "call_writes (call_binds (call_binds (BindInvertMoveSpec l new old) d) ?d') d = ?d'"
    by simp
qed

lemma edit_reversible:
  assumes "edit_ok e d"
  shows "call_writes (call_binds (as_call e) d) (edit_writes e d) = d"
    and "call_writes (call_binds (call_binds (as_call e) d) (edit_writes e d)) d = edit_writes e d"
proof -
  show "call_writes (call_binds (as_call e) d) (edit_writes e d) = d"
  proof (cases e)
    case (EditSetField l p f v)
    then show ?thesis by (simp only: as_call.simps edit_writes.simps reversible_SetField)
  next
    case (EditSetFieldDictValueByKey l p f k v)
    then show ?thesis using assms
      by (simp only: as_call.simps edit_writes.simps edit_ok_simps reversible_Dict)
  next
    case (EditSetTimeSample l p t v)
    then show ?thesis using assms
      by (simp only: as_call.simps edit_writes.simps edit_ok_simps reversible_TimeSample)
  next
    case (EditCreateSpec l p ty inert)
    then show ?thesis using assms
      by (simp only: as_call.simps edit_writes.simps edit_ok_simps reversible_Create)
  next
    case (EditDeleteSpec l p inert)
    then show ?thesis by (simp only: as_call.simps edit_writes.simps reversible_Delete)
  next
    case (EditMoveSpec l old new)
    with assms have a: "subtree d new = []" "\<not> prefix old new" "\<not> prefix new old" by simp_all
    show ?thesis unfolding EditMoveSpec as_call.simps edit_writes.simps
      by (rule reversible_Move(1)[OF a])
  next
    case (EditPushTokenChild l p f v)
    then show ?thesis using assms
      by (simp only: as_call.simps edit_writes.simps edit_ok_simps reversible_PushToken)
  next
    case (EditPushPathChild l p f v)
    then show ?thesis using assms
      by (simp only: as_call.simps edit_writes.simps edit_ok_simps reversible_PushPath)
  next
    case (EditPopTokenChild l p f v)
    then show ?thesis using assms
      by (simp only: as_call.simps edit_writes.simps edit_ok_simps reversible_PopToken)
  next
    case (EditPopPathChild l p f v)
    then show ?thesis using assms
      by (simp only: as_call.simps edit_writes.simps edit_ok_simps reversible_PopPath)
  qed
  show "call_writes (call_binds (call_binds (as_call e) d) (edit_writes e d)) d = edit_writes e d"
  proof (cases e)
    case (EditSetField l p f v)
    then show ?thesis by (simp only: as_call.simps edit_writes.simps reversible_SetField)
  next
    case (EditSetFieldDictValueByKey l p f k v)
    then show ?thesis using assms
      by (simp only: as_call.simps edit_writes.simps edit_ok_simps reversible_Dict)
  next
    case (EditSetTimeSample l p t v)
    then show ?thesis using assms
      by (simp only: as_call.simps edit_writes.simps edit_ok_simps reversible_TimeSample)
  next
    case (EditCreateSpec l p ty inert)
    then show ?thesis using assms
      by (simp only: as_call.simps edit_writes.simps edit_ok_simps reversible_Create)
  next
    case (EditDeleteSpec l p inert)
    then show ?thesis by (simp only: as_call.simps edit_writes.simps reversible_Delete)
  next
    case (EditMoveSpec l old new)
    with assms have a: "subtree d new = []" "\<not> prefix old new" "\<not> prefix new old" by simp_all
    show ?thesis unfolding EditMoveSpec as_call.simps edit_writes.simps
      by (rule reversible_Move(2)[OF a])
  next
    case (EditPushTokenChild l p f v)
    then show ?thesis using assms
      by (simp only: as_call.simps edit_writes.simps edit_ok_simps reversible_PushToken)
  next
    case (EditPushPathChild l p f v)
    then show ?thesis using assms
      by (simp only: as_call.simps edit_writes.simps edit_ok_simps reversible_PushPath)
  next
    case (EditPopTokenChild l p f v)
    then show ?thesis using assms
      by (simp only: as_call.simps edit_writes.simps edit_ok_simps reversible_PopToken)
  next
    case (EditPopPathChild l p f v)
    then show ?thesis using assms
      by (simp only: as_call.simps edit_writes.simps edit_ok_simps reversible_PopPath)
  qed
qed

lemma call_binds_layer [simp]: "call_layer (call_binds iv d) = call_layer iv"
  by (cases iv) simp_all

lemma replay_single_live:
  "L (call_layer iv) = Some d \<Longrightarrow>
   replay [iv] L = (L(call_layer iv \<mapsto> call_writes iv d), [call_binds iv d])"
  by simp

lemma batch_round_trip:
  "batch_ok es L \<Longrightarrow>
     fst (replay (rev (snd (replay (map as_call es) L))) (fst (replay (map as_call es) L))) = L
   \<and> fst (replay (rev (snd (replay (rev (snd (replay (map as_call es) L)))
                                (fst (replay (map as_call es) L))))) L)
       = fst (replay (map as_call es) L)"
proof (induction es arbitrary: L)
  case Nil
  then show ?case by simp
next
  case (Cons e es)
  let ?l = "edit_layer e"
  from Cons.prems obtain d where d: "L ?l = Some d" and ok: "edit_ok e d"
    and rest: "batch_ok es (L(?l \<mapsto> edit_writes e d))"
    by (auto split: option.splits)
  let ?d1 = "edit_writes e d"
  let ?L1 = "L(?l \<mapsto> ?d1)"
  let ?i = "call_binds (as_call e) d"
  let ?j = "call_binds ?i ?d1"
  let ?R1 = "replay (map as_call es) ?L1"
  let ?Ln = "fst ?R1" and ?T' = "snd ?R1"
  let ?RA = "replay (rev ?T') ?Ln"
  let ?A = "snd ?RA"
  note IH = Cons.IH[OF rest]
  have fwd: "replay (map as_call (e # es)) L = (?Ln, ?i # ?T')"
    using d by (simp add: case_prod_beta)
  have la: "fst ?RA = ?L1" by (rule IH[THEN conjunct1])
  have back1: "call_writes ?i ?d1 = d" by (rule edit_reversible(1)[OF ok])
  have back2: "call_writes ?j d = ?d1" by (rule edit_reversible(2)[OF ok])
  have L1l: "?L1 (call_layer ?i) = Some ?d1" by simp
  have upd: "?L1(call_layer ?i \<mapsto> d) = L" using d by (auto simp: fun_eq_iff)
  have single: "replay [?i] ?L1 = (L, [?j])"
    using replay_single_live[of ?L1 ?i ?d1, OF L1l] by (simp only: back1 upd)
  have first: "replay (rev (?i # ?T')) ?Ln = (L, ?A @ [?j])"
    by (simp only: rev.simps replay_append la single fst_conv snd_conv)
  have Ll: "L (call_layer ?j) = Some d" using d by simp
  have second: "replay (rev (?A @ [?j])) L = replay (?j # rev ?A) L" by simp
  have "replay (?j # rev ?A) L =
      (fst (replay (rev ?A) (fst (replay [?j] L))),
       snd (replay [?j] L) @ snd (replay (rev ?A) (fst (replay [?j] L))))"
    by (rule replay_Cons)
  moreover have "replay [?j] L = (?L1, [call_binds ?j d])"
    using replay_single_live[of L ?j d, OF Ll] by (simp only: back2 call_binds_layer as_call_layer)
  ultimately have "fst (replay (?j # rev ?A) L) = fst (replay (rev ?A) ?L1)" by simp
  also have "\<dots> = ?Ln" by (rule IH[THEN conjunct2])
  finally have third: "fst (replay (rev (?A @ [?j])) L) = ?Ln" by (simp only: second)
  show ?case
    by (simp only: fwd first third fst_conv snd_conv)
qed

lemma batch_binds_all:
  "batch_ok es L \<Longrightarrow> length (snd (replay (map as_call es) L)) = length es"
proof (induction es arbitrary: L)
  case Nil then show ?case by simp
next
  case (Cons e es)
  then show ?case by (auto split: option.splits simp: case_prod_beta)
qed

lemma Invert_idle:
  assumes "depth w = 0" "inversion w = []" "\<not> IsMuted w"
  shows "fst (UndoInverse_Invert t w) = snd (replay (rev t) (layers w))"
    and "layers (snd (UndoInverse_Invert t w)) = fst (replay (rev t) (layers w))"
    and "inversion (snd (UndoInverse_Invert t w)) = []"
    and "depth (snd (UndoInverse_Invert t w)) = 0"
    and "\<not> IsMuted (snd (UndoInverse_Invert t w))"
proof -
  let ?w2 = "UndoBlock__Initialize w"
  let ?w3 = "UndoInverse__Invert t ?w2"
  let ?w4 = "?w3\<lparr>inversion := []\<rparr>"
  have o: "depth ?w2 \<ge> 1" "\<not> IsMuted ?w2" using assms by simp_all
  note f = fold_call_open[OF o, of "rev t", folded Invert_fold]
  have d3: "depth ?w3 = 1" using assms by (simp add: Invert_fold fold_call_depth)
  have r: "UndoInverse_Invert t w = (inversion ?w3, UndoBlock_destroy ?w4)"
    using assms by (simp add: UndoInverse_Invert_def Let_def list_defs)
  have dd: "UndoBlock_destroy ?w4 = ?w4\<lparr>depth := depth ?w4 - 1\<rparr>"
    using d3 by (intro destroy_drained) simp_all
  show "fst (UndoInverse_Invert t w) = snd (replay (rev t) (layers w))"
    using assms f by (simp add: r)
  show "layers (snd (UndoInverse_Invert t w)) = fst (replay (rev t) (layers w))"
    using f by (simp add: r dd layers_def fun_eq_iff)
  show "inversion (snd (UndoInverse_Invert t w)) = []"
    by (simp add: r dd)
  show "depth (snd (UndoInverse_Invert t w)) = 0"
    using d3 by (simp add: r dd)
  show "\<not> IsMuted (snd (UndoInverse_Invert t w))"
    using f assms by (simp add: r dd IsMuted_def)
qed

lemma batch_adopted:
  assumes "depth w = 0" "inversion w = []" "\<not> IsMuted w" "listener w = AdoptingListener"
    and "snd (replay (map as_call es) (layers w)) \<noteq> []"
  shows "layers (UndoBlock_batch es w) = fst (replay (map as_call es) (layers w))"
    and "undoStack (UndoBlock_batch es w) = snd (replay (map as_call es) (layers w)) # undoStack w"
    and "inversion (UndoBlock_batch es w) = []"
    and "depth (UndoBlock_batch es w) = 0"
    and "\<not> IsMuted (UndoBlock_batch es w)"
proof -
  let ?w1 = "UndoBlock__Initialize w"
  let ?w2 = "fold perform es ?w1"
  have o: "depth ?w1 \<ge> 1" "\<not> IsMuted ?w1" using assms by simp_all
  note f = fold_perform_open[OF o, of es]
  have i2: "inversion ?w2 = snd (replay (map as_call es) (layers w))" using f assms by simp
  have d2: "depth ?w2 = 1" using f assms by simp
  have l2: "listener ?w2 = AdoptingListener" using f assms by simp
  have s2: "undoStack ?w2 = undoStack w" using f by simp
  have m2: "muteDepth ?w2 = muteDepth w" using f by simp
  have y2: "layers ?w2 = fst (replay (map as_call es) (layers w))" using f by simp
  have r: "UndoBlock_batch es w =
      ?w2\<lparr>depth := 0, notices := notices ?w2 + 1, inversion := [],
          undoStack := inversion ?w2 # undoStack ?w2\<rparr>"
    using assms(5) i2 d2 l2
    by (simp add: UndoBlock_batch_def UndoBlock_destroy_def UndoStackNotice_Send_def
        TransferEdits_def Let_def list_defs)
  show "layers (UndoBlock_batch es w) = fst (replay (map as_call es) (layers w))"
    using y2 by (simp add: r layers_def fun_eq_iff)
  show "undoStack (UndoBlock_batch es w) = snd (replay (map as_call es) (layers w)) # undoStack w"
    by (simp add: r i2 s2)
  show "inversion (UndoBlock_batch es w) = []" by (simp add: r)
  show "depth (UndoBlock_batch es w) = 0" by (simp add: r)
  show "\<not> IsMuted (UndoBlock_batch es w)" using assms m2 by (simp add: r IsMuted_def)
qed


section \<open>The round trip\<close>





end
